theory Spec2Isabelle
  imports Main "HOL-Library.Word"
begin

section \<open>The argument marshaller of native-lib.cpp\<close>

text \<open>
  The repository has one native function,
  \<^verbatim>\<open>Java_com_sillytavern_apk_MainActivity_startNodeWithArguments\<close>. It measures the
  argument strings (lines 15-22), allocates one block with \<^verbatim>\<open>calloc\<close> (line 24), copies
  each string and its terminator into the block while filling \<^verbatim>\<open>argv\<close> (lines 25-40),
  calls \<^verbatim>\<open>node::Start\<close> (line 42), frees the block (line 43) and returns the result
  (line 45).

  What the function does not define is a parameter of the model: the JNI environment, the
  allocator and the entry point of the embedded runtime.
\<close>

subsection \<open>Data\<close>

type_synonym byte = "8 word"

text \<open>\<^verbatim>\<open>int\<close> and \<^verbatim>\<open>jint\<close>: 32 bits, read as two's complement by \<^term>\<open>sint\<close>.\<close>

type_synonym jint = "32 word"

text \<open>Addresses are natural numbers; \<open>0\<close> is the null pointer.\<close>

type_synonym address = nat

text \<open>
  The function has no error return. The two ways a run can leave defined behaviour are
  values of the model: \<^verbatim>\<open>strlen\<close> applied to the null pointer that a failed
  \<^verbatim>\<open>GetStringUTFChars\<close> returns, and an access (by \<^verbatim>\<open>memcpy\<close> or by the terminator
  store of line 34) that is not inside the block \<^verbatim>\<open>calloc\<close> returned; a null
  \<^verbatim>\<open>args_buffer\<close> has no block. A run that meets one stops there.
\<close>

datatype fault = NullPointerRead | OutOfBounds

text \<open>
  The statements whose order matters, as events: line 19 in iteration \<open>i\<close>, line 24 with
  the size asked for, lines 33-35 in iteration \<open>i\<close>, line 42 with the count, line 43.
\<close>

datatype event = Measured nat | Allocated nat | Copied nat | Invoked nat | Released

fun phase :: "event \<Rightarrow> nat" where
  "phase (Measured i) = 0"
| "phase (Allocated n) = 1"
| "phase (Copied i) = 2"
| "phase (Invoked n) = 3"
| "phase Released = 4"

text \<open>
  The environment. \<open>GetStringUTFChars env k s\<close> is what the \<open>k\<close>-th call of
  \<^verbatim>\<open>GetStringUTFChars\<close> (counted from 0) returns for the string \<open>s\<close>: \<open>None\<close> for
  the null pointer, \<open>Some bs\<close> for a pointer to the bytes \<open>bs\<close> followed by a
  terminator. \<open>calloc env n\<close> is the address of a fresh block of \<open>n\<close> zero bytes, or
  \<open>0\<close>. \<open>node_Start env argc argv base bytes\<close> is the integer \<^verbatim>\<open>node::Start\<close>
  returns when called with \<open>argc\<close> and the vector \<open>argv\<close>, the block at \<open>base\<close>
  holding \<open>bytes\<close>; the call is taken to return.
\<close>

record 'j environment =
  GetStringUTFChars :: "nat \<Rightarrow> 'j \<Rightarrow> byte list option"
  calloc :: "nat \<Rightarrow> address"
  node_Start :: "nat \<Rightarrow> address list \<Rightarrow> address \<Rightarrow> byte list \<Rightarrow> jint"

text \<open>The local variables of the function, and \<open>heap\<close>: the bytes of the block at
  \<open>args_buffer\<close>.\<close>

record locals =
  c_arguments_size :: jint
  args_buffer :: address
  argv :: "address list"
  current :: address
  heap :: "byte list"

subsection \<open>The C library\<close>

text \<open>\<^verbatim>\<open>strlen\<close> counts the bytes before the first zero byte; the terminator follows
  the last byte of the list.\<close>

definition strlen :: "byte list \<Rightarrow> nat" where
  "strlen arg_chars = length (takeWhile (\<lambda>b. b \<noteq> 0) arg_chars)"

text \<open>The bytes from \<open>p\<close> up to \<open>p + n\<close> lie in the block of \<open>s\<close>.\<close>

definition in_block :: "locals \<Rightarrow> address \<Rightarrow> nat \<Rightarrow> bool" where
  "in_block s p n =
     (args_buffer s \<noteq> 0 \<and> args_buffer s \<le> p \<and> p + n \<le> args_buffer s + length (heap s))"

text \<open>\<^verbatim>\<open>memcpy\<close> reads \<open>n\<close> bytes of \<open>src\<close>, which must be there, and writes them
  from \<open>dest\<close> on, which must be in the block.\<close>

definition memcpy :: "locals \<Rightarrow> address \<Rightarrow> byte list \<Rightarrow> nat \<Rightarrow> locals option" where
  "memcpy s dest src n =
     (if in_block s dest n \<and> n \<le> length src
      then Some (s\<lparr>heap := take (dest - args_buffer s) (heap s) @ take n src @
                          drop (dest - args_buffer s + n) (heap s)\<rparr>)
      else None)"

definition store :: "locals \<Rightarrow> address \<Rightarrow> byte \<Rightarrow> locals option" where
  "store s p v =
     (if in_block s p 1 then Some (s\<lparr>heap := (heap s)[p - args_buffer s := v]\<rparr>) else None)"

text \<open>What a reader of a null-terminated string finds at \<open>p\<close>: the bytes before the
  first zero byte, when \<open>p\<close> is in the block and a zero byte follows inside the block.\<close>

definition c_str :: "address \<Rightarrow> byte list \<Rightarrow> address \<Rightarrow> byte list option" where
  "c_str base bytes p =
     (if base \<noteq> 0 \<and> base \<le> p \<and> 0 \<in> set (drop (p - base) bytes)
      then Some (takeWhile (\<lambda>b. b \<noteq> 0) (drop (p - base) bytes))
      else None)"

subsection \<open>The function\<close>

text \<open>
  The loops count with an \<^verbatim>\<open>int\<close> up to \<^verbatim>\<open>argument_count\<close>, the length of a Java
  array, which is below \<open>2 ^ 31\<close>: the counter cannot wrap, and the model counts in
  \<open>nat\<close>. \<^verbatim>\<open>ReleaseStringUTFChars\<close> and \<^verbatim>\<open>DeleteLocalRef\<close> return nothing the
  function uses and are left out.

  Lines 16-22. The accumulator is an \<^verbatim>\<open>int\<close>: the length is cast to \<^verbatim>\<open>int\<close> and the
  sum wraps modulo \<open>2 ^ 32\<close>.
\<close>

function size_pass ::
    "'j environment \<Rightarrow> 'j list \<Rightarrow> nat \<Rightarrow> jint \<Rightarrow> event list \<times> (fault + jint)" where
  "size_pass env arguments i c_size =
     (if i < length arguments
      then (case GetStringUTFChars env i (arguments ! i) of
              None \<Rightarrow> ([], Inl NullPointerRead)
            | Some arg_chars \<Rightarrow>
                (case size_pass env arguments (Suc i) (c_size + (of_nat (strlen arg_chars) + 1)) of
                   (tr, r) \<Rightarrow> (Measured i # tr, r)))
      else ([], Inr c_size))"
  by pat_completeness auto
termination
  by (relation "measure (\<lambda>(env, arguments, i, c_size). length arguments - i)") auto

declare size_pass.simps [simp del]

text \<open>
  Lines 28-40. The copy pass makes the calls of \<^verbatim>\<open>GetStringUTFChars\<close> that follow the
  \<open>length arguments\<close> calls of the size pass.
\<close>

function copy_pass ::
    "'j environment \<Rightarrow> 'j list \<Rightarrow> nat \<Rightarrow> locals \<Rightarrow> event list \<times> (fault + locals)" where
  "copy_pass env arguments i s =
     (if i < length arguments
      then (case GetStringUTFChars env (length arguments + i) (arguments ! i) of
              None \<Rightarrow> ([], Inl NullPointerRead)
            | Some arg_chars \<Rightarrow>
                (let arg_length = strlen arg_chars in
                 case memcpy s (current s) arg_chars arg_length of
                   None \<Rightarrow> ([], Inl OutOfBounds)
                 | Some s1 \<Rightarrow>
                     (case store s1 (current s1 + arg_length) 0 of
                        None \<Rightarrow> ([], Inl OutOfBounds)
                      | Some s2 \<Rightarrow>
                          (case copy_pass env arguments (Suc i)
                                  (s2\<lparr>argv := (argv s2)[i := current s2],
                                      current := current s2 + (arg_length + 1)\<rparr>) of
                             (tr, r) \<Rightarrow> (Copied i # tr, r)))))
      else ([], Inr s))"
  by pat_completeness auto
termination
  by (relation "measure (\<lambda>(env, arguments, i, s). length arguments - i)") auto

declare copy_pass.simps [simp del]

text \<open>
  Line 24 passes the \<^verbatim>\<open>int\<close> to a parameter of type \<^verbatim>\<open>size_t\<close>, here of 64 bits:
  the value is sign-extended, so a negative size becomes a request of almost \<open>2 ^ 64\<close>
  bytes.
\<close>

definition to_size_t :: "jint \<Rightarrow> nat" where
  "to_size_t n = unat (scast n :: 64 word)"

text \<open>
  Lines 24-26: the locals when the copy pass begins. The block is zero-initialised; a
  null result leaves no block. The entries of \<^verbatim>\<open>argv\<close> are uninitialised (here 0) until
  the loop assigns them.
\<close>

definition allocate :: "'j environment \<Rightarrow> nat \<Rightarrow> jint \<Rightarrow> locals" where
  "allocate env argument_count c_size =
     \<lparr>c_arguments_size = c_size,
      args_buffer = calloc env (to_size_t c_size),
      argv = replicate argument_count 0,
      current = calloc env (to_size_t c_size),
      heap = (if calloc env (to_size_t c_size) = 0 then [] else replicate (to_size_t c_size) 0)\<rparr>"

text \<open>Lines 13-40: the run up to the call of \<^verbatim>\<open>node::Start\<close>, and the locals there.\<close>

definition marshal :: "'j environment \<Rightarrow> 'j list \<Rightarrow> event list \<times> (fault + locals)" where
  "marshal env arguments =
     (case size_pass env arguments 0 0 of
        (tr1, Inl f) \<Rightarrow> (tr1, Inl f)
      | (tr1, Inr c_size) \<Rightarrow>
          (case copy_pass env arguments 0 (allocate env (length arguments) c_size) of
             (tr2, r) \<Rightarrow> (tr1 @ Allocated (to_size_t c_size) # tr2, r)))"

text \<open>Lines 13-45: the whole function, with the events of the run and its outcome.\<close>

definition Java_com_sillytavern_apk_MainActivity_startNodeWithArguments ::
    "'j environment \<Rightarrow> 'j list \<Rightarrow> event list \<times> (fault + jint)" where
  "Java_com_sillytavern_apk_MainActivity_startNodeWithArguments env arguments =
     (case marshal env arguments of
        (tr, Inl f) \<Rightarrow> (tr, Inl f)
      | (tr, Inr s) \<Rightarrow>
          (tr @ [Invoked (length arguments), Released],
           Inr (node_Start env (length arguments) (argv s) (args_buffer s) (heap s))))"

text \<open>The Java method's own name stands for the function in what follows.\<close>

abbreviation startNodeWithArguments ::
    "'j environment \<Rightarrow> 'j list \<Rightarrow> event list \<times> (fault + jint)" where
  "startNodeWithArguments \<equiv> Java_com_sillytavern_apk_MainActivity_startNodeWithArguments"

subsection \<open>Vocabulary of the statements\<close>

text \<open>
  \<open>converts env arguments first bs\<close>: the calls number \<open>first\<close>, \<open>first + 1\<close>, ... of
  \<^verbatim>\<open>GetStringUTFChars\<close>, one per argument, succeed and return the byte strings \<open>bs\<close>.
  The size pass makes the calls from \<open>0\<close>, the copy pass those from \<open>length arguments\<close>.
\<close>

definition converts :: "'j environment \<Rightarrow> 'j list \<Rightarrow> nat \<Rightarrow> byte list list \<Rightarrow> bool" where
  "converts env arguments first bs =
     (length bs = length arguments \<and>
      (\<forall>k<length arguments. GetStringUTFChars env (first + k) (arguments ! k) = Some (bs ! k)))"

text \<open>The bytes the strings \<open>bs\<close> need, each with its terminator.\<close>

definition bytes_needed :: "byte list list \<Rightarrow> nat" where
  "bytes_needed bs = sum_list (map (\<lambda>b. strlen b + 1) bs)"

text \<open>The slots of the strings \<open>bs\<close> laid out back to back, and where each begins when
  the first begins at \<open>p\<close>.\<close>

definition packed :: "byte list list \<Rightarrow> byte list" where
  "packed bs = concat (map (\<lambda>b. takeWhile (\<lambda>x. x \<noteq> 0) b @ [0]) bs)"

fun offsets :: "address \<Rightarrow> byte list list \<Rightarrow> address list" where
  "offsets p [] = []"
| "offsets p (b # bs) = p # offsets (p + (strlen b + 1)) bs"

text \<open>The locals after lines 33-34 of one iteration, after the whole iteration, and after
  the iterations from \<open>i\<close> on have copied the strings \<open>bs\<close>.\<close>

definition write_slot :: "locals \<Rightarrow> byte list \<Rightarrow> locals" where
  "write_slot s b =
     s\<lparr>heap := take (current s - args_buffer s) (heap s) @ takeWhile (\<lambda>x. x \<noteq> 0) b @
               0 # drop (current s - args_buffer s + (strlen b + 1)) (heap s)\<rparr>"

definition advance :: "locals \<Rightarrow> nat \<Rightarrow> byte list \<Rightarrow> locals" where
  "advance s i b =
     (write_slot s b)\<lparr>argv := (argv s)[i := current s], current := current s + (strlen b + 1)\<rparr>"

definition copied :: "locals \<Rightarrow> nat \<Rightarrow> byte list list \<Rightarrow> locals" where
  "copied s i bs =
     s\<lparr>argv := take i (argv s) @ offsets (current s) bs,
       current := current s + bytes_needed bs,
       heap := take (current s - args_buffer s) (heap s) @ packed bs @
               drop (current s - args_buffer s + bytes_needed bs) (heap s)\<rparr>"

text \<open>
  An environment to run the function in: every conversion succeeds and returns the
  argument's own bytes, every allocation succeeds at address 4096, and the entry point
  answers with the count plus the bytes it can read through \<open>argv\<close>.
\<close>

definition example_run :: "nat \<Rightarrow> byte list option list \<Rightarrow> jint" where
  "example_run argc strings =
     of_nat (argc + sum_list (map (\<lambda>x. case x of None \<Rightarrow> 0 | Some b \<Rightarrow> length b) strings))"

definition example_env :: "byte list environment" where
  "example_env =
     \<lparr>GetStringUTFChars = (\<lambda>k s. Some s),
      calloc = (\<lambda>n. 4096),
      node_Start = (\<lambda>argc av base bytes. example_run argc (map (c_str base bytes) av))\<rparr>"

text \<open>
  Variants of it: the allocator returns the null pointer; the allocator returns the
  address 8192; the conversions return the null pointer from the call number \<open>k\<close> on.
\<close>

definition exhausted_env :: "byte list environment" where
  "exhausted_env = example_env\<lparr>calloc := \<lambda>n. 0\<rparr>"

definition moved_env :: "byte list environment" where
  "moved_env = example_env\<lparr>calloc := \<lambda>n. 8192\<rparr>"

definition failing_env :: "nat \<Rightarrow> byte list environment" where
  "failing_env k = example_env\<lparr>GetStringUTFChars := \<lambda>n s. if n < k then Some s else None\<rparr>"

text \<open>The arguments \<^verbatim>\<open>node --version\<close>, and the locals the function reaches with them
  in \<open>example_env\<close> and in \<open>moved_env\<close>.\<close>

definition example_arguments :: "byte list list" where
  "example_arguments = [[110, 111, 100, 101], [45, 45, 118, 101, 114, 115, 105, 111, 110]]"

definition moved_locals :: locals where
  "moved_locals =
     \<lparr>c_arguments_size = 15, args_buffer = 8192, argv = [8192, 8197], current = 8207,
      heap = [110, 111, 100, 101, 0, 45, 45, 118, 101, 114, 115, 105, 111, 110, 0]\<rparr>"

definition example_locals :: locals where
  "example_locals =
     \<lparr>c_arguments_size = 15, args_buffer = 4096, argv = [4096, 4101], current = 4111,
      heap = [110, 111, 100, 101, 0, 45, 45, 118, 101, 114, 115, 105, 111, 110, 0]\<rparr>"

text \<open>The locals the function reaches in \<open>example_env\<close> with the single argument
  \<^verbatim>\<open>n\<close>.\<close>

definition single_locals :: locals where
  "single_locals =
     \<lparr>c_arguments_size = 2, args_buffer = 4096, argv = [4096], current = 4098,
      heap = [110, 0]\<rparr>"

text \<open>
  An argument too long for an \<^verbatim>\<open>int\<close>: the Modified UTF-8 bytes of a Java string of
  1431655765 characters U+4E2D, three bytes each, \<open>2 ^ 32 - 1\<close> bytes in all.
\<close>

definition long_argument :: "byte list" where
  "long_argument = concat (replicate 1431655765 [228, 184, 173])"

section \<open>Lemmas\<close>

lemmas start_def = Java_com_sillytavern_apk_MainActivity_startNodeWithArguments_def

subsection \<open>The size pass\<close>

lemma bytes_needed_Nil [simp]: "bytes_needed [] = 0"
  by (simp add: bytes_needed_def)

lemma bytes_needed_Cons [simp]: "bytes_needed (b # bs) = strlen b + 1 + bytes_needed bs"
  by (simp add: bytes_needed_def)

lemma size_pass_converted:
  assumes "length bs = length arguments"
    and "\<forall>k<length arguments. GetStringUTFChars env k (arguments ! k) = Some (bs ! k)"
  shows "size_pass env arguments i c =
           (map Measured [i..<length arguments], Inr (c + of_nat (bytes_needed (drop i bs))))"
proof (induction "length arguments - i" arbitrary: i c)
  case 0
  then show ?case using assms(1) by (simp add: size_pass.simps)
next
  case (Suc n)
  then have i: "i < length arguments" by simp
  have d: "drop i bs = bs ! i # drop (Suc i) bs"
    using i assms(1) by (simp add: Cons_nth_drop_Suc)
  have ih: "size_pass env arguments (Suc i) (c + (of_nat (strlen (bs ! i)) + 1)) =
      (map Measured [Suc i..<length arguments],
       Inr (c + (of_nat (strlen (bs ! i)) + 1) + of_nat (bytes_needed (drop (Suc i) bs))))"
    using Suc by simp
  show ?case
    using i assms(2) ih
    by (simp add: size_pass.simps [of env arguments i] d upt_conv_Cons add.assoc)
qed

lemma size_pass_null:
  assumes "i \<le> k" and "k < length arguments"
    and "GetStringUTFChars env k (arguments ! k) = None"
  shows "snd (size_pass env arguments i c) = Inl NullPointerRead"
  using assms
proof (induction "k - i" arbitrary: i c)
  case 0
  then show ?case by (simp add: size_pass.simps [of env arguments i])
next
  case (Suc n)
  then have "n = k - Suc i" "Suc i \<le> k" by simp_all
  then have "snd (size_pass env arguments (Suc i) c') = Inl NullPointerRead" for c'
    using Suc by blast
  then show ?case
    using Suc.prems
    by (simp add: size_pass.simps [of env arguments i] split_beta split: option.split)
qed

lemma size_pass_trace: "\<exists>n. fst (size_pass env arguments i c) = map Measured [i..<n]"
proof (induction "length arguments - i" arbitrary: i c)
  case 0
  then show ?case by (auto simp: size_pass.simps)
next
  case (Suc m)
  show ?case
  proof (cases "GetStringUTFChars env i (arguments ! i)")
    case None
    then show ?thesis by (auto simp: size_pass.simps [of env arguments i])
  next
    case (Some b)
    from Suc obtain n where
      n: "fst (size_pass env arguments (Suc i) (c + (of_nat (strlen b) + 1))) =
            map Measured [Suc i..<n]"
      by (metis Suc_diff_Suc Suc_inject zero_less_Suc zero_less_diff diff_Suc_eq_diff_pred
          diff_Suc_1)
    show ?thesis
    proof (cases "Suc i \<le> n")
      case True
      then have "map Measured [i..<n] = Measured i # map Measured [Suc i..<n]"
        by (simp add: upt_conv_Cons)
      then show ?thesis using Some Suc(2) n
        by (auto simp: size_pass.simps [of env arguments i] split_beta intro!: exI [of _ n])
    next
      case False
      then show ?thesis using Some Suc(2) n
        by (auto simp: size_pass.simps [of env arguments i] split_beta intro!: exI [of _ "Suc i"])
    qed
  qed
qed

lemma size_pass_cases:
  "snd (size_pass env arguments i c) = Inl NullPointerRead \<or>
   (\<exists>c'. snd (size_pass env arguments i c) = Inr c')"
proof (induction "length arguments - i" arbitrary: i c)
  case 0
  then show ?case by (simp add: size_pass.simps)
next
  case (Suc m)
  then have "m = length arguments - Suc i" by simp
  then have "snd (size_pass env arguments (Suc i) c') = Inl NullPointerRead \<or>
      (\<exists>c''. snd (size_pass env arguments (Suc i) c') = Inr c'')" for c'
    using Suc by blast
  then show ?case
    by (simp add: size_pass.simps [of env arguments i] split_beta split: option.split)
qed

subsection \<open>One iteration of the copy pass\<close>

lemma packed_Nil [simp]: "packed [] = []"
  by (simp add: packed_def)

lemma packed_Cons [simp]: "packed (b # bs) = takeWhile (\<lambda>x. x \<noteq> 0) b @ 0 # packed bs"
  by (simp add: packed_def)

lemma length_packed [simp]: "length (packed bs) = bytes_needed bs"
  by (induction bs) (simp_all add: strlen_def)

lemma length_offsets [simp]: "length (offsets p bs) = length bs"
  by (induction bs arbitrary: p) simp_all


lemma strlen_le: "strlen b \<le> length b"
  by (simp add: strlen_def length_takeWhile_le)

lemma take_strlen: "take (strlen b) b = takeWhile (\<lambda>x. x \<noteq> 0) b"
  by (simp add: strlen_def takeWhile_eq_take [symmetric])


lemma splice_length:
  "k + l \<le> length h \<Longrightarrow> length t = l \<Longrightarrow> length (take k h @ t @ drop (k + l) h) = length h"
  by simp

lemma splice_update:
  assumes "k + l < length h" and "length t = l"
  shows "(take k h @ t @ drop (k + l) h)[k + l := z] = take k h @ t @ z # drop (k + (l + 1)) h"
proof -
  have k: "length (take k h) = k" using assms(1) by simp
  have "(drop (k + l) h)[0 := z] = z # drop (Suc (k + l)) h"
    using assms(1) by (simp add: Cons_nth_drop_Suc [symmetric])
  then show ?thesis
    using assms(2) k by (simp add: list_update_append)
qed

lemma slot_written:
  assumes "in_block s (current s) (strlen b + 1)"
  shows "\<exists>s1. memcpy s (current s) b (strlen b) = Some s1 \<and>
              store s1 (current s1 + strlen b) 0 = Some (write_slot s b)"
proof -
  let ?k = "current s - args_buffer s"
  let ?l = "strlen b"
  let ?t = "takeWhile (\<lambda>x. x \<noteq> 0) b"
  let ?h = "take ?k (heap s) @ ?t @ drop (?k + ?l) (heap s)"
  have b: "args_buffer s \<noteq> 0" "args_buffer s \<le> current s" "?k + ?l < length (heap s)"
    using assms by (auto simp: in_block_def)
  have lt: "length ?t = ?l" by (simp add: strlen_def)
  have eq: "current s + ?l - args_buffer s = ?k + ?l" using b(2) by simp
  have len: "length ?h = length (heap s)"
    using b(3) lt by (intro splice_length) simp_all
  have m: "memcpy s (current s) b ?l = Some (s\<lparr>heap := ?h\<rparr>)"
    using b by (simp add: memcpy_def in_block_def take_strlen strlen_le)
  have "in_block (s\<lparr>heap := ?h\<rparr>) (current s + ?l) 1"
    using b len unfolding in_block_def by simp
  then have "store (s\<lparr>heap := ?h\<rparr>) (current s + ?l) 0 = Some (s\<lparr>heap := ?h[?k + ?l := 0]\<rparr>)"
    by (simp add: store_def eq)
  also have "?h[?k + ?l := 0] = take ?k (heap s) @ ?t @ 0 # drop (?k + (?l + 1)) (heap s)"
    using b(3) lt by (rule splice_update)
  finally show ?thesis using m by (simp add: write_slot_def)
qed

lemma slot_not_written:
  assumes "\<not> in_block s (current s) (strlen b + 1)"
    and "memcpy s (current s) b (strlen b) = Some s1"
  shows "store s1 (current s1 + strlen b) 0 = None"
proof -
  let ?k = "current s - args_buffer s"
  have lt: "length (takeWhile (\<lambda>x. x \<noteq> 0) b) = strlen b" by (simp add: strlen_def)
  have i: "in_block s (current s) (strlen b)"
    and s1: "s1 = s\<lparr>heap := take ?k (heap s) @ takeWhile (\<lambda>x. x \<noteq> 0) b @
                          drop (?k + strlen b) (heap s)\<rparr>"
    using assms(2) by (auto simp: memcpy_def take_strlen split: if_splits)
  have "?k + strlen b \<le> length (heap s)"
    using i by (auto simp: in_block_def)
  then have "length (heap s1) = length (heap s)"
    unfolding s1 using lt by (simp del: length_append length_take length_drop add: splice_length)
  then show ?thesis
    using assms(1) i by (simp add: store_def in_block_def s1)
qed

lemma copy_pass_step:
  assumes "i < length arguments"
    and "GetStringUTFChars env (length arguments + i) (arguments ! i) = Some b"
    and "in_block s (current s) (strlen b + 1)"
  shows "copy_pass env arguments i s =
           (Copied i # fst (copy_pass env arguments (Suc i) (advance s i b)),
            snd (copy_pass env arguments (Suc i) (advance s i b)))"
proof -
  obtain s1 where m: "memcpy s (current s) b (strlen b) = Some s1"
    and st: "store s1 (current s1 + strlen b) 0 = Some (write_slot s b)"
    using slot_written [OF assms(3)] by blast
  have w: "argv (write_slot s b) = argv s" "current (write_slot s b) = current s"
    by (simp_all add: write_slot_def)
  show ?thesis
    using assms(1,2) m st
    by (simp add: copy_pass.simps [of env arguments i] split_beta advance_def w Let_def)
qed

lemma copy_pass_step_fault:
  assumes "i < length arguments"
    and "GetStringUTFChars env (length arguments + i) (arguments ! i) = Some b"
    and "\<not> in_block s (current s) (strlen b + 1)"
  shows "copy_pass env arguments i s = ([], Inl OutOfBounds)"
proof (cases "memcpy s (current s) b (strlen b)")
  case None
  then show ?thesis
    using assms(1,2) by (simp add: copy_pass.simps [of env arguments i])
next
  case (Some s1)
  then have "store s1 (current s1 + strlen b) 0 = None"
    using assms(3) by (intro slot_not_written)
  then show ?thesis
    using assms(1,2) Some by (simp add: copy_pass.simps [of env arguments i])
qed

lemma splice_take:
  "k \<le> length h \<Longrightarrow> length t = l \<Longrightarrow> take (Suc (k + l)) (take k h @ t @ z # r) = take k h @ t @ [z]"
  by simp

lemma splice_drop:
  "k \<le> length h \<Longrightarrow> length t = l \<Longrightarrow> drop (Suc (k + (l + n))) (take k h @ t @ z # r) = drop n r"
  by simp

lemma copied_advance:
  assumes "i < length (argv s)" and "in_block s (current s) (strlen b + 1)"
  shows "copied (advance s i b) (Suc i) bs = copied s i (b # bs)"
proof -
  let ?k = "current s - args_buffer s"
  let ?t = "takeWhile (\<lambda>x. x \<noteq> 0) b"
  let ?r = "drop (Suc (?k + strlen b)) (heap s)"
  have b: "args_buffer s \<le> current s" "?k \<le> length (heap s)"
    using assms(2) by (auto simp: in_block_def)
  have lt: "length ?t = strlen b" by (simp add: strlen_def)
  have k: "Suc (current s + strlen b) - args_buffer s = Suc (?k + strlen b)"
    using b(1) by simp
  have a: "take (Suc i) ((argv s)[i := current s]) = take i (argv s) @ [current s]"
    using assms(1) by (simp add: take_Suc_conv_app_nth)
  have t: "take (Suc (?k + strlen b)) (take ?k (heap s) @ ?t @ 0 # ?r) =
           take ?k (heap s) @ ?t @ [0]"
    using b(2) lt by (rule splice_take)
  have d: "drop (Suc (?k + (strlen b + bytes_needed bs))) (take ?k (heap s) @ ?t @ 0 # ?r) =
           drop (Suc (?k + (strlen b + bytes_needed bs))) (heap s)"
    using b(2) lt by (simp add: ac_simps)
  show ?thesis
    unfolding copied_def advance_def write_slot_def
    by (simp del: take_append drop_append length_take length_drop add: a k t d add.assoc)
qed

subsection \<open>The copy pass\<close>

lemma advance_fields [simp]:
  "args_buffer (advance s i b) = args_buffer s"
  "c_arguments_size (advance s i b) = c_arguments_size s"
  "current (advance s i b) = current s + (strlen b + 1)"
  "length (argv (advance s i b)) = length (argv s)"
  by (simp_all add: advance_def write_slot_def)

lemma length_heap_advance:
  assumes "in_block s (current s) (strlen b + 1)"
  shows "length (heap (advance s i b)) = length (heap s)"
proof -
  have "current s - args_buffer s + (strlen b + 1) \<le> length (heap s)"
    using assms by (auto simp: in_block_def)
  then show ?thesis
    by (simp add: advance_def write_slot_def strlen_def)
qed

lemma in_block_advance:
  assumes "in_block s (current s) (strlen b + 1)"
  shows "in_block (advance s i b) (current (advance s i b)) n \<longleftrightarrow>
         in_block s (current s) (strlen b + 1 + n)"
  using assms by (auto simp: in_block_def length_heap_advance [OF assms])

lemma copied_Nil: "length (argv s) = i \<Longrightarrow> copied s i [] = s"
  by (simp add: copied_def)

lemma copy_pass_converted:
  assumes "length bs = length arguments"
    and "\<forall>k<length arguments.
           GetStringUTFChars env (length arguments + k) (arguments ! k) = Some (bs ! k)"
    and "length (argv s) = length arguments"
    and "i \<le> length arguments"
    and "i = length arguments \<or> in_block s (current s) (bytes_needed (drop i bs))"
  shows "copy_pass env arguments i s =
           (map Copied [i..<length arguments], Inr (copied s i (drop i bs)))"
  using assms(3-5)
proof (induction "length arguments - i" arbitrary: i s)
  case 0
  then show ?case using assms(1) by (simp add: copy_pass.simps copied_Nil)
next
  case (Suc n)
  let ?b = "bs ! i"
  let ?s = "advance s i ?b"
  from Suc have i: "i < length arguments" by simp
  have d: "drop i bs = ?b # drop (Suc i) bs"
    using i assms(1) by (simp add: Cons_nth_drop_Suc)
  have blk: "in_block s (current s) (strlen ?b + 1 + bytes_needed (drop (Suc i) bs))"
    using Suc.prems(3) i by (simp add: d)
  then have one: "in_block s (current s) (strlen ?b + 1)"
    by (auto simp: in_block_def)
  have conv: "GetStringUTFChars env (length arguments + i) (arguments ! i) = Some ?b"
    using assms(2) i by simp
  have "copy_pass env arguments (Suc i) ?s =
          (map Copied [Suc i..<length arguments], Inr (copied ?s (Suc i) (drop (Suc i) bs)))"
  proof (rule Suc.hyps(1))
    show "n = length arguments - Suc i" using Suc.hyps(2) by simp
    show "length (argv ?s) = length arguments" using Suc.prems(1) by simp
    show "Suc i \<le> length arguments" using i by simp
    show "Suc i = length arguments \<or> in_block ?s (current ?s) (bytes_needed (drop (Suc i) bs))"
      using blk by (simp only: in_block_advance [OF one]) simp
  qed
  moreover have "copied ?s (Suc i) (drop (Suc i) bs) = copied s i (drop i bs)"
    using i Suc.prems(1) one by (simp only: d) (rule copied_advance, simp_all)
  ultimately show ?case
    using i by (simp add: copy_pass_step [OF i conv one] upt_conv_Cons)
qed

lemma copy_pass_overrun:
  assumes "length bs = length arguments"
    and "\<forall>k<length arguments.
           GetStringUTFChars env (length arguments + k) (arguments ! k) = Some (bs ! k)"
    and "i < length arguments"
    and "\<not> in_block s (current s) (bytes_needed (drop i bs))"
  shows "snd (copy_pass env arguments i s) = Inl OutOfBounds"
  using assms(3,4)
proof (induction "length arguments - i" arbitrary: i s)
  case 0
  then show ?case by simp
next
  case (Suc n)
  let ?b = "bs ! i"
  let ?s = "advance s i ?b"
  have i: "i < length arguments" by (rule Suc.prems(1))
  have d: "drop i bs = ?b # drop (Suc i) bs"
    using i assms(1) by (simp add: Cons_nth_drop_Suc)
  have conv: "GetStringUTFChars env (length arguments + i) (arguments ! i) = Some ?b"
    using assms(2) i by simp
  show ?case
  proof (cases "in_block s (current s) (strlen ?b + 1)")
    case False
    then show ?thesis by (simp add: copy_pass_step_fault [OF i conv])
  next
    case True
    have nb: "\<not> in_block ?s (current ?s) (bytes_needed (drop (Suc i) bs))"
      using Suc.prems(2) by (simp only: in_block_advance [OF True] d) simp
    have lt: "Suc i < length arguments"
    proof (rule ccontr)
      assume "\<not> Suc i < length arguments"
      then have "drop (Suc i) bs = []" using assms(1) by simp
      then show False using Suc.prems(2) True by (simp add: d)
    qed
    have n: "n = length arguments - Suc i" using Suc.hyps(2) by simp
    have "snd (copy_pass env arguments (Suc i) ?s) = Inl OutOfBounds"
      using n lt nb by (rule Suc.hyps(1))
    then show ?thesis by (simp add: copy_pass_step [OF i conv True])
  qed
qed

lemma copy_pass_null:
  assumes "i \<le> k" and "k < length arguments"
    and "GetStringUTFChars env (length arguments + k) (arguments ! k) = None"
  shows "\<exists>f. snd (copy_pass env arguments i s) = Inl f"
  using assms(1)
proof (induction "k - i" arbitrary: i s)
  case 0
  then show ?case using assms(2,3) by (simp add: copy_pass.simps [of env arguments i])
next
  case (Suc n)
  then have "n = k - Suc i" "Suc i \<le> k" by simp_all
  then have "\<exists>f. snd (copy_pass env arguments (Suc i) s') = Inl f" for s'
    using Suc.hyps(1) by blast
  moreover have "i < length arguments" using Suc.prems assms(2) Suc.hyps(2) by simp
  ultimately show ?case
    by (simp add: copy_pass.simps [of env arguments i] split_beta Let_def split: option.split)
qed

lemma copy_pass_trace: "\<exists>n. fst (copy_pass env arguments i s) = map Copied [i..<n]"
proof (induction "length arguments - i" arbitrary: i s)
  case 0
  then show ?case by (auto simp: copy_pass.simps)
next
  case (Suc m)
  have ih: "\<exists>n. fst (copy_pass env arguments (Suc i) s') = map Copied [Suc i..<n]" for s'
    using Suc by (metis Suc_diff_Suc Suc_inject zero_less_Suc zero_less_diff)
  have stop: "\<exists>n. [] = map Copied [i..<n]" by auto
  have go: "\<exists>n. Copied i # fst (copy_pass env arguments (Suc i) s') = map Copied [i..<n]" for s'
  proof -
    obtain n where n: "fst (copy_pass env arguments (Suc i) s') = map Copied [Suc i..<n]"
      using ih by blast
    show ?thesis
    proof (cases "Suc i \<le> n")
      case True
      then show ?thesis using n by (auto simp: upt_conv_Cons intro!: exI [of _ n])
    next
      case False
      then show ?thesis using n by (auto intro!: exI [of _ "Suc i"])
    qed
  qed
  show ?case
    using stop go
    by (simp add: copy_pass.simps [of env arguments i] split_beta Let_def split: option.split)
qed

subsection \<open>The packed block\<close>

lemma takeWhile_no_zero: "0 \<notin> set b \<Longrightarrow> takeWhile (\<lambda>x. x \<noteq> 0) b = b"
  by (induction b) auto

lemma strlen_no_zero: "0 \<notin> set b \<Longrightarrow> strlen b = length b"
  by (simp add: strlen_def takeWhile_no_zero)

lemma offsets_nth: "i < length bs \<Longrightarrow> offsets p bs ! i = p + bytes_needed (take i bs)"
proof (induction bs arbitrary: p i)
  case Nil
  then show ?case by simp
next
  case (Cons b bs)
  then show ?case by (cases i) simp_all
qed

lemma offsets_shift: "map (\<lambda>q. q - p) (offsets p bs) = offsets 0 bs"
proof -
  have "map (\<lambda>q. q - p) (offsets (p + n) bs) = offsets n bs" for n
  proof (induction bs arbitrary: n)
    case Nil
    then show ?case by simp
  next
    case (Cons b bs)
    have "map (\<lambda>q. q - p) (offsets (p + (n + (strlen b + 1))) bs) = offsets (n + (strlen b + 1)) bs"
      by (rule Cons.IH)
    then show ?case by (simp add: add.assoc)
  qed
  from this [of 0] show ?thesis by simp
qed

lemma bytes_needed_take_Suc:
  "i < length bs \<Longrightarrow>
   bytes_needed (take (Suc i) bs) = bytes_needed (take i bs) + (strlen (bs ! i) + 1)"
  by (simp add: take_Suc_conv_app_nth bytes_needed_def)

lemma bytes_needed_take_mono:
  "i \<le> j \<Longrightarrow> bytes_needed (take i bs) \<le> bytes_needed (take j bs)"
proof -
  assume "i \<le> j"
  then have "take j bs = take i bs @ take (j - i) (drop i bs)"
    by (metis le_add_diff_inverse take_add)
  then show ?thesis by (simp add: bytes_needed_def)
qed

lemma bytes_needed_take_le: "bytes_needed (take i bs) \<le> bytes_needed bs"
  using bytes_needed_take_mono [of i "length bs" bs] by (cases "i \<le> length bs") simp_all

lemma drop_packed:
  "i \<le> length bs \<Longrightarrow> drop (bytes_needed (take i bs)) (packed bs @ r) = packed (drop i bs) @ r"
proof (induction bs arbitrary: i)
  case Nil
  then show ?case by simp
next
  case (Cons b bs)
  show ?case
  proof (cases i)
    case 0
    then show ?thesis by simp
  next
    case (Suc j)
    then have "j \<le> length bs" using Cons.prems by simp
    then have "drop (bytes_needed (take j bs)) (packed bs @ r) = packed (drop j bs) @ r"
      by (rule Cons.IH)
    then show ?thesis using Suc by (simp add: strlen_def)
  qed
qed

lemma slot_at:
  assumes "i < length bs"
  shows "drop (bytes_needed (take i bs)) (packed bs @ r) =
           takeWhile (\<lambda>x. x \<noteq> 0) (bs ! i) @ 0 # packed (drop (Suc i) bs) @ r"
proof -
  have "drop i bs = bs ! i # drop (Suc i) bs"
    using assms by (simp add: Cons_nth_drop_Suc)
  then show ?thesis
    using assms by (simp del: drop_append add: drop_packed)
qed

lemma takeWhile_slot:
  "takeWhile (\<lambda>x. x \<noteq> (0::byte)) (takeWhile (\<lambda>x. x \<noteq> 0) b @ 0 # r) = takeWhile (\<lambda>x. x \<noteq> 0) b"
proof -
  have "x \<noteq> 0" if "x \<in> set (takeWhile (\<lambda>x. x \<noteq> 0) b)" for x
    using that by (auto dest: set_takeWhileD)
  then show ?thesis by (simp add: takeWhile_append2)
qed

lemma c_str_packed:
  assumes "i < length bs" and "base \<noteq> 0"
  shows "c_str base (packed bs @ r) (base + bytes_needed (take i bs)) =
           Some (takeWhile (\<lambda>x. x \<noteq> 0) (bs ! i))"
  using assms by (simp del: drop_append add: c_str_def slot_at takeWhile_slot)

subsection \<open>The run up to the invocation\<close>

lemma sint_of_nat_small: "n < 2 ^ 31 \<Longrightarrow> sint (of_nat n :: jint) = int n"
  by (simp add: signed_of_nat signed_take_bit_int_eq_self_iff)

lemma to_size_t_of_nat: "n < 2 ^ 31 \<Longrightarrow> to_size_t (of_nat n) = n"
proof -
  assume n: "n < 2 ^ 31"
  have "scast (of_nat n :: jint) = (word_of_int (int n) :: 64 word)"
    by (simp only: scast_eq sint_of_nat_small [OF n])
  also have "\<dots> = of_nat n" by simp
  finally show ?thesis using n by (simp add: to_size_t_def unat_of_nat)
qed

lemma allocate_fields [simp]:
  "c_arguments_size (allocate env n c) = c"
  "args_buffer (allocate env n c) = calloc env (to_size_t c)"
  "current (allocate env n c) = calloc env (to_size_t c)"
  "argv (allocate env n c) = replicate n 0"
  "heap (allocate env n c) =
     (if calloc env (to_size_t c) = 0 then [] else replicate (to_size_t c) 0)"
  by (simp_all add: allocate_def)

lemma in_block_allocate:
  "in_block (allocate env n c) (calloc env (to_size_t c)) m \<longleftrightarrow>
     calloc env (to_size_t c) \<noteq> 0 \<and> m \<le> to_size_t c"
  by (simp add: in_block_def)

lemma copied_fields [simp]:
  "c_arguments_size (copied s i bs) = c_arguments_size s"
  "args_buffer (copied s i bs) = args_buffer s"
  "current (copied s i bs) = current s + bytes_needed bs"
  "argv (copied s i bs) = take i (argv s) @ offsets (current s) bs"
  "heap (copied s i bs) = take (current s - args_buffer s) (heap s) @ packed bs @
               drop (current s - args_buffer s + bytes_needed bs) (heap s)"
  by (simp_all add: copied_def)

lemma converts_unique:
  "converts env arguments first bs \<Longrightarrow> converts env arguments first bs' \<Longrightarrow> bs' = bs"
  by (auto simp: converts_def intro: nth_equalityI)

lemma converts_exists:
  assumes "\<forall>k<length arguments. GetStringUTFChars env (first + k) (arguments ! k) \<noteq> None"
  shows "\<exists>bs. converts env arguments first bs"
proof -
  let ?bs = "map (\<lambda>k. the (GetStringUTFChars env (first + k) (arguments ! k)))
              [0..<length arguments]"
  have "converts env arguments first ?bs"
    using assms by (auto simp: converts_def)
  then show ?thesis ..
qed

lemma size_pass_Inr:
  assumes "snd (size_pass env arguments 0 c0) = Inr c"
  obtains bs where "converts env arguments 0 bs"
proof -
  have "GetStringUTFChars env (0 + k) (arguments ! k) \<noteq> None" if "k < length arguments" for k
  proof
    assume "GetStringUTFChars env (0 + k) (arguments ! k) = None"
    then have "snd (size_pass env arguments 0 c0) = Inl NullPointerRead"
      using that by (intro size_pass_null [of 0 k]) simp_all
    then show False using assms by simp
  qed
  then show thesis using converts_exists [of arguments env 0] that by blast
qed

lemma copy_pass_Inr:
  assumes "snd (copy_pass env arguments 0 s0) = Inr s"
  obtains bs where "converts env arguments (length arguments) bs"
proof -
  have "GetStringUTFChars env (length arguments + k) (arguments ! k) \<noteq> None"
    if "k < length arguments" for k
  proof
    assume "GetStringUTFChars env (length arguments + k) (arguments ! k) = None"
    then have "\<exists>f. snd (copy_pass env arguments 0 s0) = Inl f"
      using that by (intro copy_pass_null [of 0 k]) simp_all
    then show False using assms by auto
  qed
  then show thesis using converts_exists [of arguments env "length arguments"] that by blast
qed

lemma size_pass_sized:
  assumes "converts env arguments 0 bs"
  shows "size_pass env arguments 0 0 =
           (map Measured [0..<length arguments], Inr (of_nat (bytes_needed bs)))"
  using assms size_pass_converted [of bs arguments env 0 0] by (simp add: converts_def)

lemma marshal_sized:
  assumes "converts env arguments 0 bs"
  shows "marshal env arguments =
           (map Measured [0..<length arguments] @
              Allocated (to_size_t (of_nat (bytes_needed bs))) #
              fst (copy_pass env arguments 0
                     (allocate env (length arguments) (of_nat (bytes_needed bs)))),
            snd (copy_pass env arguments 0
                   (allocate env (length arguments) (of_nat (bytes_needed bs)))))"
  by (simp add: marshal_def size_pass_sized [OF assms] split_beta)

lemma marshal_copied:
  assumes "converts env arguments 0 bs1"
    and "converts env arguments (length arguments) bs2"
    and "arguments = [] \<or>
         (calloc env (to_size_t (of_nat (bytes_needed bs1))) \<noteq> 0 \<and>
          bytes_needed bs2 \<le> to_size_t (of_nat (bytes_needed bs1)))"
  shows "marshal env arguments =
           (map Measured [0..<length arguments] @
              Allocated (to_size_t (of_nat (bytes_needed bs1))) #
              map Copied [0..<length arguments],
            Inr (copied (allocate env (length arguments) (of_nat (bytes_needed bs1))) 0 bs2))"
proof -
  let ?s0 = "allocate env (length arguments) (of_nat (bytes_needed bs1))"
  have "copy_pass env arguments 0 ?s0 =
          (map Copied [0..<length arguments], Inr (copied ?s0 0 (drop 0 bs2)))"
  proof (rule copy_pass_converted)
    show "length bs2 = length arguments" using assms(2) by (simp add: converts_def)
    show "\<forall>k<length arguments.
            GetStringUTFChars env (length arguments + k) (arguments ! k) = Some (bs2 ! k)"
      using assms(2) by (simp add: converts_def)
    show "length (argv ?s0) = length arguments" by simp
    show "0 \<le> length arguments" by simp
    show "0 = length arguments \<or> in_block ?s0 (current ?s0) (bytes_needed (drop 0 bs2))"
      using assms(3) by (auto simp: in_block_allocate)
  qed
  then show ?thesis by (simp add: marshal_sized [OF assms(1)])
qed

lemma marshal_overrun:
  assumes "converts env arguments 0 bs1"
    and "converts env arguments (length arguments) bs2"
    and "arguments \<noteq> []"
    and "calloc env (to_size_t (of_nat (bytes_needed bs1))) = 0 \<or>
         to_size_t (of_nat (bytes_needed bs1)) < bytes_needed bs2"
  shows "snd (marshal env arguments) = Inl OutOfBounds"
proof -
  let ?s0 = "allocate env (length arguments) (of_nat (bytes_needed bs1))"
  have "snd (copy_pass env arguments 0 ?s0) = Inl OutOfBounds"
  proof (rule copy_pass_overrun)
    show "length bs2 = length arguments" using assms(2) by (simp add: converts_def)
    show "\<forall>k<length arguments.
            GetStringUTFChars env (length arguments + k) (arguments ! k) = Some (bs2 ! k)"
      using assms(2) by (simp add: converts_def)
    show "0 < length arguments" using assms(3) by simp
    show "\<not> in_block ?s0 (current ?s0) (bytes_needed (drop 0 bs2))"
      using assms(4) by (auto simp: in_block_allocate)
  qed
  then show ?thesis by (simp add: marshal_sized [OF assms(1)])
qed

text \<open>What a run that reaches the invocation has done.\<close>

lemma marshal_Inr:
  assumes "snd (marshal env arguments) = Inr s"
    and "converts env arguments (length arguments) bs"
  obtains c where "snd (size_pass env arguments 0 0) = Inr c"
    and "s = copied (allocate env (length arguments) c) 0 bs"
    and "arguments = [] \<or> (calloc env (to_size_t c) \<noteq> 0 \<and> bytes_needed bs \<le> to_size_t c)"
    and "fst (marshal env arguments) =
           map Measured [0..<length arguments] @ Allocated (to_size_t c) #
           map Copied [0..<length arguments]"
proof -
  have "\<exists>c. snd (size_pass env arguments 0 0) = Inr c"
    using assms(1) size_pass_cases [of env arguments 0 0]
    by (auto simp: marshal_def split_beta split: sum.splits)
  then obtain c where c: "snd (size_pass env arguments 0 0) = Inr c" ..
  then obtain bs1 where bs1: "converts env arguments 0 bs1"
    by (rule size_pass_Inr)
  have c': "c = of_nat (bytes_needed bs1)"
    using c by (simp add: size_pass_sized [OF bs1])
  have ok: "arguments = [] \<or> (calloc env (to_size_t c) \<noteq> 0 \<and> bytes_needed bs \<le> to_size_t c)"
  proof (rule ccontr)
    assume "\<not> ?thesis"
    then have "snd (marshal env arguments) = Inl OutOfBounds"
      unfolding c' by (intro marshal_overrun [OF bs1 assms(2)]) auto
    then show False using assms(1) by simp
  qed
  have "marshal env arguments =
          (map Measured [0..<length arguments] @ Allocated (to_size_t c) #
             map Copied [0..<length arguments],
           Inr (copied (allocate env (length arguments) c) 0 bs))"
    using ok unfolding c' by (intro marshal_copied [OF bs1 assms(2)])
  then show thesis using that [OF c _ ok] assms(1) by simp
qed

lemma marshal_Inr_converts:
  assumes "snd (marshal env arguments) = Inr s"
  obtains bs where "converts env arguments (length arguments) bs"
proof -
  obtain c where "snd (size_pass env arguments 0 0) = Inr c"
    using assms size_pass_cases [of env arguments 0 0]
    by (auto simp: marshal_def split_beta split: sum.splits)
  then have "snd (copy_pass env arguments 0 (allocate env (length arguments) c)) = Inr s"
    using assms by (simp add: marshal_def split_beta split: sum.splits prod.splits)
  then show thesis using that by (rule copy_pass_Inr)
qed

lemma to_size_t_0 [simp]: "to_size_t 0 = 0"
  using to_size_t_of_nat [of 0] by simp

lemma heap_marshalled:
  assumes "calloc env (to_size_t c) \<noteq> 0" and "bytes_needed bs \<le> to_size_t c"
  shows "heap (copied (allocate env n c) 0 bs) =
           packed bs @ replicate (to_size_t c - bytes_needed bs) 0"
  using assms by simp

lemma slot_before:
  assumes "i < j" and "j \<le> length bs"
  shows "bytes_needed (take i bs) + strlen (bs ! i) < bytes_needed (take j bs)"
proof -
  have "bytes_needed (take (Suc i) bs) \<le> bytes_needed (take j bs)"
    using assms(1) by (intro bytes_needed_take_mono) simp
  then show ?thesis
    using assms by (simp add: bytes_needed_take_Suc)
qed

lemma slot_terminated:
  assumes "i < length bs"
  shows "(packed bs @ r) ! (bytes_needed (take i bs) + strlen (bs ! i)) = 0"
proof -
  have "bytes_needed (take (Suc i) bs) \<le> bytes_needed bs"
    by (rule bytes_needed_take_le)
  then have "bytes_needed (take i bs) + strlen (bs ! i) < length (packed bs @ r)"
    using assms by (simp add: bytes_needed_take_Suc)
  then have "(packed bs @ r) ! (bytes_needed (take i bs) + strlen (bs ! i)) =
             drop (bytes_needed (take i bs)) (packed bs @ r) ! strlen (bs ! i)"
    by (simp del: drop_append)
  also have "\<dots> = 0"
    by (simp only: slot_at [OF assms]) (simp add: nth_append strlen_def)
  finally show ?thesis .
qed

lemma slot_bytes:
  assumes "i < length bs"
  shows "take (strlen (bs ! i)) (drop (bytes_needed (take i bs)) (packed bs @ r)) =
           take (strlen (bs ! i)) (bs ! i)"
  by (simp only: slot_at [OF assms]) (simp add: strlen_def take_strlen [unfolded strlen_def])

lemma size_pass_Inr_sized:
  assumes "snd (size_pass env arguments 0 0) = Inr c"
  shows "size_pass env arguments 0 0 = (map Measured [0..<length arguments], Inr c)"
proof -
  obtain bs where bs: "converts env arguments 0 bs"
    using assms by (rule size_pass_Inr)
  show ?thesis using assms by (simp add: size_pass_sized [OF bs])
qed

lemma copy_pass_null_buffer:
  assumes "args_buffer s = 0" and "arguments \<noteq> []"
  shows "fst (copy_pass env arguments 0 s) = [] \<and> (\<exists>f. snd (copy_pass env arguments 0 s) = Inl f)"
proof (cases "GetStringUTFChars env (length arguments + 0) (arguments ! 0)")
  case None
  then show ?thesis
    using assms(2) by (simp add: copy_pass.simps [of env arguments 0])
next
  case (Some b)
  have "\<not> in_block s (current s) (strlen b + 1)"
    using assms(1) by (simp add: in_block_def)
  then have "copy_pass env arguments 0 s = ([], Inl OutOfBounds)"
    using assms(2) Some by (intro copy_pass_step_fault) simp_all
  then show ?thesis by simp
qed

subsection \<open>The events of a run\<close>

lemma phase_Measured: "map (phase \<circ> Measured) ns = replicate (length ns) 0"
  by (induction ns) simp_all

lemma phase_Copied: "map (phase \<circ> Copied) ns = replicate (length ns) 2"
  by (induction ns) simp_all

lemma sorted_replicate: "sorted (replicate n (x::nat))"
  by (induction n) simp_all

lemma marshal_trace:
  "(\<exists>n. fst (marshal env arguments) = map Measured [0..<n]) \<or>
   (\<exists>c n. fst (marshal env arguments) =
      map Measured [0..<length arguments] @ Allocated (to_size_t c) # map Copied [0..<n])"
proof (cases "snd (size_pass env arguments 0 0)")
  case (Inl f)
  obtain n where "fst (size_pass env arguments 0 0) = map Measured [0..<n]"
    using size_pass_trace [of env arguments 0 0] by blast
  then have "size_pass env arguments 0 0 = (map Measured [0..<n], Inl f)"
    using Inl by (simp add: prod_eq_iff)
  then show ?thesis by (auto simp: marshal_def)
next
  case (Inr c)
  obtain n where "fst (copy_pass env arguments 0 (allocate env (length arguments) c)) =
      map Copied [0..<n]"
    using copy_pass_trace [of env arguments 0] by blast
  then show ?thesis
    by (auto simp: marshal_def size_pass_Inr_sized [OF Inr] split_beta)
qed

lemma marshal_phases:
  "sorted (map phase (fst (marshal env arguments))) \<and>
   distinct (fst (marshal env arguments)) \<and>
   (\<forall>e\<in>set (fst (marshal env arguments)). phase e < 3)"
  using marshal_trace [of env arguments]
  by (auto simp: phase_Measured phase_Copied sorted_append sorted_replicate distinct_map
      inj_on_def)

lemma marshal_Inr_trace:
  assumes "snd (marshal env arguments) = Inr s"
  shows "\<exists>c. fst (marshal env arguments) =
           map Measured [0..<length arguments] @ Allocated (to_size_t c) #
           map Copied [0..<length arguments]"
proof -
  obtain bs where bs: "converts env arguments (length arguments) bs"
    using assms by (rule marshal_Inr_converts)
  show ?thesis using assms bs by (rule marshal_Inr) blast
qed

lemma start_returns:
  "snd (marshal env arguments) = Inr s \<Longrightarrow>
   startNodeWithArguments env arguments =
     (fst (marshal env arguments) @ [Invoked (length arguments), Released],
      Inr (node_Start env (length arguments) (argv s) (args_buffer s) (heap s)))"
  by (simp add: start_def split_beta)

lemma start_faults:
  "snd (marshal env arguments) = Inl f \<Longrightarrow>
   startNodeWithArguments env arguments = (fst (marshal env arguments), Inl f)"
  by (simp add: start_def split_beta)

subsection \<open>Two runs\<close>

lemma c_str_shift:
  assumes "base \<noteq> 0" and "base' \<noteq> 0"
  shows "c_str base' bytes (base' + n) = c_str base bytes (base + n)"
  using assms by (simp add: c_str_def)

lemma offsets_add: "offsets (p + q) bs = map (\<lambda>n. p + n) (offsets q bs)"
proof (induction bs arbitrary: q)
  case Nil
  then show ?case by simp
next
  case (Cons b bs)
  have "offsets (p + (q + (strlen b + 1))) bs = map (\<lambda>n. p + n) (offsets (q + (strlen b + 1)) bs)"
    by (rule Cons.IH)
  then show ?case by (simp add: add.assoc)
qed

lemma c_str_offsets:
  assumes "bs = [] \<or> (base \<noteq> 0 \<and> base' \<noteq> 0)"
  shows "map (c_str base' bytes) (offsets base' bs) = map (c_str base bytes) (offsets base bs)"
proof (cases "bs = []")
  case True
  then show ?thesis by simp
next
  case False
  then have b: "base \<noteq> 0" "base' \<noteq> 0" using assms by simp_all
  have "map (c_str base' bytes) (offsets (base' + 0) bs) =
        map (c_str base bytes) (offsets (base + 0) bs)"
    unfolding offsets_add by (simp add: c_str_shift [OF b] comp_def)
  then show ?thesis by simp
qed

lemma converts_transfer:
  assumes "converts env arguments first bs"
    and "length arguments' = length arguments"
    and "\<forall>k. \<forall>i<length arguments.
           GetStringUTFChars env' k (arguments' ! i) = GetStringUTFChars env k (arguments ! i)"
  shows "converts env' arguments' first bs"
  using assms by (simp add: converts_def)

subsection \<open>The example run\<close>

lemma exhausted_env_simps [simp]:
  "GetStringUTFChars exhausted_env = GetStringUTFChars example_env"
  "calloc exhausted_env n = 0"
  "node_Start exhausted_env = node_Start example_env"
  by (simp_all add: exhausted_env_def)

lemma moved_env_simps [simp]:
  "GetStringUTFChars moved_env = GetStringUTFChars example_env"
  "calloc moved_env n = 8192"
  "node_Start moved_env = node_Start example_env"
  by (simp_all add: moved_env_def)

lemma failing_env_simps [simp]:
  "GetStringUTFChars (failing_env k) n s = (if n < k then Some s else None)"
  "calloc (failing_env k) = calloc example_env"
  "node_Start (failing_env k) = node_Start example_env"
  by (simp_all add: failing_env_def)

lemma converts_example: "converts example_env example_arguments n example_arguments"
  by (simp add: converts_def example_env_def)

lemma bytes_needed_example: "bytes_needed example_arguments = 15"
  by (simp add: example_arguments_def strlen_def)

lemma marshal_example: "marshal example_env example_arguments =
  ([Measured 0, Measured 1, Allocated 15, Copied 0, Copied 1], Inr example_locals)"
proof -
  have a: "to_size_t 15 = 15" by (simp add: to_size_t_def)
  have b: "calloc example_env 15 = 4096" by (simp add: example_env_def)
  have u: "[0..<2] = [0, 1]" by (simp add: upt_rec)
  have "marshal example_env example_arguments =
      (map Measured [0..<length example_arguments] @
       Allocated (to_size_t (of_nat (bytes_needed example_arguments))) #
       map Copied [0..<length example_arguments],
       Inr (copied (allocate example_env (length example_arguments)
              (of_nat (bytes_needed example_arguments))) 0 example_arguments))"
    by (rule marshal_copied [OF converts_example converts_example])
       (simp add: a b bytes_needed_example)
  also have "copied (allocate example_env (length example_arguments)
              (of_nat (bytes_needed example_arguments))) 0 example_arguments = example_locals"
    by (simp add: copied_def allocate_def a b bytes_needed_example example_locals_def)
       (simp add: example_arguments_def strlen_def)
  finally show ?thesis by (simp add: a bytes_needed_example) (simp add: example_arguments_def u)
qed

lemma well_formed_example: "\<forall>b\<in>set example_arguments. 0 \<notin> set b"
  by (simp add: example_arguments_def)

lemma start_example:
  "startNodeWithArguments example_env example_arguments =
     ([Measured 0, Measured 1, Allocated 15, Copied 0, Copied 1, Invoked 2, Released], Inr 15)"
proof -
  have m: "snd (marshal example_env example_arguments) = Inr example_locals"
    by (simp add: marshal_example)
  have l: "length example_arguments = 2" by (simp add: example_arguments_def)
  have "c_str 4096 [110, 111, 100, 101, 0, 45, 45, 118, 101, 114, 115, 105, 111, 110, 0] 4096 =
          Some [110, 111, 100, 101]"
    by (simp add: c_str_def)
  moreover have
    "c_str 4096 [110, 111, 100, 101, 0, 45, 45, 118, 101, 114, 115, 105, 111, 110, 0] 4101 =
          Some [45, 45, 118, 101, 114, 115, 105, 111, 110]"
    by (simp add: c_str_def)
  ultimately have "node_Start example_env (length example_arguments) (argv example_locals)
      (args_buffer example_locals) (heap example_locals) = 15"
    by (simp add: l example_locals_def example_env_def example_run_def)
  then show ?thesis
    by (simp add: start_returns [OF m] marshal_example l)
qed

lemma converts_example_moved:
  "converts moved_env example_arguments n example_arguments"
  by (simp add: converts_def example_env_def)

lemma marshal_example_moved:
  "snd (marshal moved_env example_arguments) = Inr moved_locals"
proof -
  have a: "to_size_t 15 = 15" by (simp add: to_size_t_def)
  have "marshal moved_env example_arguments =
      (map Measured [0..<length example_arguments] @
       Allocated (to_size_t (of_nat (bytes_needed example_arguments))) #
       map Copied [0..<length example_arguments],
       Inr (copied (allocate moved_env (length example_arguments)
              (of_nat (bytes_needed example_arguments))) 0 example_arguments))"
    by (rule marshal_copied [OF converts_example_moved converts_example_moved])
       (simp add: a bytes_needed_example)
  also have "copied (allocate moved_env (length example_arguments)
              (of_nat (bytes_needed example_arguments))) 0 example_arguments = moved_locals"
    by (simp add: copied_def allocate_def a bytes_needed_example moved_locals_def)
       (simp add: example_arguments_def strlen_def)
  finally show ?thesis by simp
qed

lemma length_long_argument: "length long_argument = 4294967295"
  by (simp add: long_argument_def length_concat sum_list_replicate)

lemma long_argument_well_formed: "0 \<notin> set long_argument"
  by (auto simp: long_argument_def)

lemma long_argument_no_zero: "takeWhile (\<lambda>b. b \<noteq> 0) long_argument = long_argument"
  using long_argument_well_formed by (rule takeWhile_no_zero)

lemma strlen_long_argument: "strlen long_argument = 4294967295"
  by (simp add: strlen_def long_argument_no_zero length_long_argument)

subsection \<open>Runs that reach the invocation\<close>

lemma marshal_reached:
  assumes "converts env arguments 0 bs"
    and "converts env arguments (length arguments) bs"
    and "bytes_needed bs < 2 ^ 31"
    and "calloc env (bytes_needed bs) \<noteq> 0"
  shows "\<exists>s. snd (marshal env arguments) = Inr s"
proof -
  have req: "to_size_t (of_nat (bytes_needed bs)) = bytes_needed bs"
    using assms(3) by (rule to_size_t_of_nat)
  have "marshal env arguments =
          (map Measured [0..<length arguments] @
             Allocated (to_size_t (of_nat (bytes_needed bs))) #
             map Copied [0..<length arguments],
           Inr (copied (allocate env (length arguments) (of_nat (bytes_needed bs))) 0 bs))"
    using assms(4) by (intro marshal_copied [OF assms(1,2)]) (simp add: req)
  then show ?thesis by simp
qed

lemma c_str_reached:
  assumes "snd (marshal env arguments) = Inr s"
    and "converts env arguments (length arguments) bs"
    and "\<forall>b\<in>set bs. 0 \<notin> set b"
    and "i < length arguments"
  shows "c_str (args_buffer s) (heap s) (argv s ! i) = Some (bs ! i)"
proof -
  obtain c where s: "s = copied (allocate env (length arguments) c) 0 bs"
    and ok: "arguments = [] \<or> (calloc env (to_size_t c) \<noteq> 0 \<and> bytes_needed bs \<le> to_size_t c)"
    using assms(1,2) by (rule marshal_Inr)
  have len: "length bs = length arguments" using assms(2) by (simp add: converts_def)
  then have i: "i < length bs" using assms(4) by simp
  have base: "calloc env (to_size_t c) \<noteq> 0" using ok assms(4) by auto
  have "0 \<notin> set (bs ! i)" using assms(3) i by simp
  then have "takeWhile (\<lambda>x. x \<noteq> 0) (bs ! i) = bs ! i" by (rule takeWhile_no_zero)
  then show ?thesis
    using c_str_packed [OF i base, of "drop (bytes_needed bs) (replicate (to_size_t c) 0)"] i base
    by (simp add: s offsets_nth)
qed

lemma slot_reached:
  assumes "snd (marshal env arguments) = Inr s"
    and "converts env arguments (length arguments) bs"
    and "i < length arguments"
  shows "in_block s (argv s ! i) (strlen (bs ! i) + 1) \<and>
         heap s ! (argv s ! i - args_buffer s + strlen (bs ! i)) = 0 \<and>
         argv s ! i = args_buffer s + bytes_needed (take i bs) \<and>
         take (strlen (bs ! i)) (drop (argv s ! i - args_buffer s) (heap s)) =
           take (strlen (bs ! i)) (bs ! i)"
proof -
  obtain c where s: "s = copied (allocate env (length arguments) c) 0 bs"
    and ok: "arguments = [] \<or> (calloc env (to_size_t c) \<noteq> 0 \<and> bytes_needed bs \<le> to_size_t c)"
    using assms(1,2) by (rule marshal_Inr)
  let ?B = "calloc env (to_size_t c)"
  let ?r = "replicate (to_size_t c - bytes_needed bs) 0"
  have len: "length bs = length arguments" using assms(2) by (simp add: converts_def)
  then have i: "i < length bs" using assms(3) by simp
  have base: "?B \<noteq> 0" and fit: "bytes_needed bs \<le> to_size_t c" using ok assms(3) by auto
  have h: "heap s = packed bs @ ?r"
    using base fit by (simp add: s heap_marshalled)
  have a: "argv s ! i = ?B + bytes_needed (take i bs)"
    using i by (simp add: s offsets_nth)
  have b: "args_buffer s = ?B" by (simp add: s)
  have "bytes_needed (take (Suc i) bs) \<le> bytes_needed bs"
    by (rule bytes_needed_take_le)
  then have inside: "in_block s (argv s ! i) (strlen (bs ! i) + 1)"
    using base fit i by (simp add: in_block_def a b h bytes_needed_take_Suc)
  have "heap s ! (argv s ! i - args_buffer s + strlen (bs ! i)) = 0"
    using slot_terminated [OF i, of ?r] by (simp add: a b h)
  moreover have "take (strlen (bs ! i)) (drop (argv s ! i - args_buffer s) (heap s)) =
           take (strlen (bs ! i)) (bs ! i)"
    using slot_bytes [OF i, of ?r] by (simp del: drop_append add: a b h)
  ultimately show ?thesis
    using inside a b by simp
qed

lemma slots_disjoint_reached:
  assumes "snd (marshal env arguments) = Inr s"
    and "converts env arguments (length arguments) bs"
    and "i < length arguments" and "j < length arguments" and "i \<noteq> j"
  shows "{argv s ! i .. argv s ! i + strlen (bs ! i)} \<inter>
           {argv s ! j .. argv s ! j + strlen (bs ! j)} = {}"
proof -
  have len: "length bs = length arguments" using assms(2) by (simp add: converts_def)
  then have i: "i < length bs" and j: "j < length bs" using assms(3,4) by simp_all
  have a: "argv s ! k = args_buffer s + bytes_needed (take k bs)" if "k < length arguments" for k
    using slot_reached [OF assms(1,2) that] by blast
  show ?thesis
  proof (cases "i < j")
    case True
    then have "bytes_needed (take i bs) + strlen (bs ! i) < bytes_needed (take j bs)"
      using j by (intro slot_before) simp_all
    then show ?thesis by (auto simp: a [OF assms(3)] a [OF assms(4)])
  next
    case False
    then have "j < i" using assms(5) by simp
    then have "bytes_needed (take j bs) + strlen (bs ! j) < bytes_needed (take i bs)"
      using i by (intro slot_before) simp_all
    then show ?thesis by (auto simp: a [OF assms(3)] a [OF assms(4)])
  qed
qed

lemma marshal_single: "snd (marshal example_env [[110]]) = Inr single_locals"
proof -
  have s: "strlen [110] = 1" by (simp add: strlen_def)
  have r: "replicate 2 (0 :: byte) = [0, 0]" by (simp add: numeral_2_eq_2)
  show ?thesis
    by (simp add: marshal_def allocate_def example_env_def size_pass.simps copy_pass.simps s
        memcpy_def store_def in_block_def to_size_t_def r single_locals_def)
qed

subsection \<open>Runs that end in the copy pass\<close>

lemma marshal_never_invokes:
  "Released \<notin> set (fst (marshal env arguments)) \<and>
   (\<forall>n. Invoked n \<notin> set (fst (marshal env arguments)))"
proof -
  have p: "\<forall>e\<in>set (fst (marshal env arguments)). phase e < 3"
    using marshal_phases [of env arguments] by blast
  have "Released \<notin> set (fst (marshal env arguments))"
    using p by fastforce
  moreover have "Invoked n \<notin> set (fst (marshal env arguments))" for n
    using p by fastforce
  ultimately show ?thesis by blast
qed

lemma copy_pass_fault_inside:
  assumes "snd (copy_pass env arguments i s) = Inl f"
  shows "\<exists>n. i \<le> n \<and> n < length arguments \<and>
             fst (copy_pass env arguments i s) = map Copied [i..<n]"
  using assms
proof (induction "length arguments - i" arbitrary: i s)
  case 0
  then show ?case by (simp add: copy_pass.simps)
next
  case (Suc m)
  then have i: "i < length arguments" by simp
  define P where "P tr \<longleftrightarrow> (\<exists>n. i \<le> n \<and> n < length arguments \<and> tr = map Copied [i..<n])"
    for tr
  have ih: "\<exists>n. Suc i \<le> n \<and> n < length arguments \<and>
                 fst (copy_pass env arguments (Suc i) s') = map Copied [Suc i..<n]"
    if "snd (copy_pass env arguments (Suc i) s') = Inl f" for s'
    using Suc.hyps(1) [of "Suc i" s'] Suc.hyps(2) that by simp
  have stop: "P []"
    unfolding P_def using i by (intro exI [of _ i]) simp
  have go: "P (Copied i # fst (copy_pass env arguments (Suc i) s'))"
    if h: "snd (copy_pass env arguments (Suc i) s') = Inl f" for s'
  proof -
    obtain n where n: "Suc i \<le> n" "n < length arguments"
        "fst (copy_pass env arguments (Suc i) s') = map Copied [Suc i..<n]"
      using ih [OF h] by blast
    then show ?thesis unfolding P_def by (intro exI [of _ n]) (simp add: upt_conv_Cons)
  qed
  have "P (fst (copy_pass env arguments i s))"
    using stop go Suc.prems
    by (simp add: copy_pass.simps [of env arguments i] split_beta Let_def i
        split: option.split_asm)
  then show ?case unfolding P_def .
qed

lemma start_exhausted_example:
  "snd (startNodeWithArguments exhausted_env example_arguments) = Inl OutOfBounds"
proof -
  have c: "converts exhausted_env example_arguments n example_arguments" for n
    by (simp add: converts_def example_env_def)
  have n: "example_arguments \<noteq> []" by (simp add: example_arguments_def)
  have "snd (marshal exhausted_env example_arguments) = Inl OutOfBounds"
    by (rule marshal_overrun [OF c c n]) simp
  then show ?thesis by (simp add: start_faults)
qed

subsection \<open>Two runs in step\<close>

lemma size_pass_agree:
  assumes "length arguments' = length arguments"
    and "\<forall>k. \<forall>i<length arguments.
           GetStringUTFChars env' k (arguments' ! i) = GetStringUTFChars env k (arguments ! i)"
  shows "size_pass env' arguments' i c = size_pass env arguments i c"
proof (induction "length arguments - i" arbitrary: i c)
  case 0
  then show ?case using assms(1) by (simp add: size_pass.simps)
next
  case (Suc n)
  then have i: "i < length arguments" by simp
  have g: "GetStringUTFChars env' i (arguments' ! i) = GetStringUTFChars env i (arguments ! i)"
    using assms(2) i by simp
  have ih: "size_pass env' arguments' (Suc i) c' = size_pass env arguments (Suc i) c'" for c'
    using Suc by simp
  show ?case
    using i assms(1)
    by (simp add: size_pass.simps [of env' arguments' i] size_pass.simps [of env arguments i]
        g ih split: option.split)
qed

lemma in_block_relative:
  assumes "args_buffer s \<le> current s"
  shows "in_block s (current s) n \<longleftrightarrow>
         args_buffer s \<noteq> 0 \<and> current s - args_buffer s + n \<le> length (heap s)"
  using assms by (auto simp: in_block_def)

lemma heap_advance:
  "heap (advance s i b) =
     take (current s - args_buffer s) (heap s) @ takeWhile (\<lambda>x. x \<noteq> 0) b @
     0 # drop (current s - args_buffer s + (strlen b + 1)) (heap s)"
  by (simp add: advance_def write_slot_def)

lemma copy_pass_agree:
  assumes "length arguments' = length arguments"
    and "\<forall>k. \<forall>i<length arguments.
           GetStringUTFChars env' k (arguments' ! i) = GetStringUTFChars env k (arguments ! i)"
    and "heap s' = heap s"
    and "current s' - args_buffer s' = current s - args_buffer s"
    and "args_buffer s \<le> current s" and "args_buffer s' \<le> current s'"
    and "(args_buffer s' = 0) = (args_buffer s = 0)"
  shows "fst (copy_pass env' arguments' i s') = fst (copy_pass env arguments i s) \<and>
         ((\<exists>f. snd (copy_pass env' arguments' i s') = Inl f \<and>
               snd (copy_pass env arguments i s) = Inl f) \<or>
          (\<exists>t' t. snd (copy_pass env' arguments' i s') = Inr t' \<and>
                  snd (copy_pass env arguments i s) = Inr t))"
  using assms(3-7)
proof (induction "length arguments - i" arbitrary: i s s')
  case 0
  then show ?case using assms(1) by (simp add: copy_pass.simps)
next
  case (Suc n)
  then have i: "i < length arguments" by simp
  then have i': "i < length arguments'" using assms(1) by simp
  have g: "GetStringUTFChars env' (length arguments' + i) (arguments' ! i) =
           GetStringUTFChars env (length arguments + i) (arguments ! i)"
    using assms(2) i by (simp add: assms(1))
  show ?case
  proof (cases "GetStringUTFChars env (length arguments + i) (arguments ! i)")
    case None
    then show ?thesis
      using i i' g
      by (simp add: copy_pass.simps [of env' arguments' i] copy_pass.simps [of env arguments i])
  next
    case (Some b)
    then have some': "GetStringUTFChars env' (length arguments' + i) (arguments' ! i) = Some b"
      using g by simp
    have eq: "in_block s' (current s') (strlen b + 1) \<longleftrightarrow> in_block s (current s) (strlen b + 1)"
      using Suc.prems by (simp add: in_block_relative)
    show ?thesis
    proof (cases "in_block s (current s) (strlen b + 1)")
      case False
      then have "\<not> in_block s' (current s') (strlen b + 1)" using eq by simp
      then have "copy_pass env' arguments' i s' = ([], Inl OutOfBounds)"
        by (rule copy_pass_step_fault [OF i' some'])
      moreover have "copy_pass env arguments i s = ([], Inl OutOfBounds)"
        using False by (rule copy_pass_step_fault [OF i Some])
      ultimately show ?thesis by simp
    next
      case True
      then have True': "in_block s' (current s') (strlen b + 1)" using eq by simp
      let ?t = "advance s i b" and ?t' = "advance s' i b"
      have "fst (copy_pass env' arguments' (Suc i) ?t') = fst (copy_pass env arguments (Suc i) ?t) \<and>
         ((\<exists>f. snd (copy_pass env' arguments' (Suc i) ?t') = Inl f \<and>
               snd (copy_pass env arguments (Suc i) ?t) = Inl f) \<or>
          (\<exists>t' t. snd (copy_pass env' arguments' (Suc i) ?t') = Inr t' \<and>
                  snd (copy_pass env arguments (Suc i) ?t) = Inr t))"
      proof (rule Suc.hyps(1))
        show "n = length arguments - Suc i" using Suc.hyps(2) by simp
        show "heap ?t' = heap ?t" using Suc.prems(1,2) by (simp add: heap_advance)
        show "current ?t' - args_buffer ?t' = current ?t - args_buffer ?t"
          using Suc.prems(2,3,4) by simp
        show "args_buffer ?t \<le> current ?t" using Suc.prems(3) by simp
        show "args_buffer ?t' \<le> current ?t'" using Suc.prems(4) by simp
        show "(args_buffer ?t' = 0) = (args_buffer ?t = 0)" using Suc.prems(5) by simp
      qed
      then show ?thesis
        by (simp add: copy_pass_step [OF i Some True] copy_pass_step [OF i' some' True'])
    qed
  qed
qed

lemma marshal_agree:
  assumes "length arguments' = length arguments"
    and "\<forall>k. \<forall>i<length arguments.
           GetStringUTFChars env' k (arguments' ! i) = GetStringUTFChars env k (arguments ! i)"
    and "\<forall>c. snd (size_pass env arguments 0 0) = Inr c \<longrightarrow>
           (calloc env' (to_size_t c) = 0) = (calloc env (to_size_t c) = 0)"
  shows "fst (marshal env' arguments') = fst (marshal env arguments) \<and>
         ((\<exists>f. snd (marshal env' arguments') = Inl f \<and> snd (marshal env arguments) = Inl f) \<or>
          (\<exists>t' t. snd (marshal env' arguments') = Inr t' \<and> snd (marshal env arguments) = Inr t))"
proof -
  have sz: "size_pass env' arguments' 0 0 = size_pass env arguments 0 0"
    using assms(1,2) by (rule size_pass_agree)
  show ?thesis
  proof (cases "snd (size_pass env arguments 0 0)")
    case (Inl f)
    then obtain tr where "size_pass env arguments 0 0 = (tr, Inl f)"
      by (cases "size_pass env arguments 0 0") simp
    then show ?thesis
      by (simp add: marshal_def sz)
  next
    case (Inr c)
    then obtain tr where c: "size_pass env arguments 0 0 = (tr, Inr c)"
      by (cases "size_pass env arguments 0 0") simp
    have nul: "(calloc env' (to_size_t c) = 0) = (calloc env (to_size_t c) = 0)"
      using assms(3) Inr by blast
    let ?s = "allocate env (length arguments) c" and ?s' = "allocate env' (length arguments') c"
    have "fst (copy_pass env' arguments' 0 ?s') = fst (copy_pass env arguments 0 ?s) \<and>
         ((\<exists>f. snd (copy_pass env' arguments' 0 ?s') = Inl f \<and>
               snd (copy_pass env arguments 0 ?s) = Inl f) \<or>
          (\<exists>t' t. snd (copy_pass env' arguments' 0 ?s') = Inr t' \<and>
                  snd (copy_pass env arguments 0 ?s) = Inr t))"
      using assms(1,2)
    proof (rule copy_pass_agree)
      show "heap ?s' = heap ?s" using nul by simp
      show "current ?s' - args_buffer ?s' = current ?s - args_buffer ?s" by simp
      show "args_buffer ?s \<le> current ?s" by simp
      show "args_buffer ?s' \<le> current ?s'" by simp
      show "(args_buffer ?s' = 0) = (args_buffer ?s = 0)" using nul by simp
    qed
    then show ?thesis
      using c by (simp add: marshal_def sz split_beta)
  qed
qed

lemma deterministic_reached:
  assumes "length arguments' = length arguments"
    and "\<forall>k. \<forall>i<length arguments.
           GetStringUTFChars env' k (arguments' ! i) = GetStringUTFChars env k (arguments ! i)"
    and "\<forall>argc av base bytes.
           node_Start env argc av base bytes = run argc (map (c_str base bytes) av)"
    and "\<forall>argc av base bytes.
           node_Start env' argc av base bytes = run argc (map (c_str base bytes) av)"
    and "snd (marshal env arguments) = Inr s"
    and "snd (marshal env' arguments') = Inr s'"
  shows "heap s' = heap s \<and>
         map (\<lambda>p. p - args_buffer s') (argv s') = map (\<lambda>p. p - args_buffer s) (argv s) \<and>
         snd (startNodeWithArguments env' arguments') = snd (startNodeWithArguments env arguments)"
proof -
  obtain bs where bs: "converts env arguments (length arguments) bs"
    using assms(5) by (rule marshal_Inr_converts)
  have bs': "converts env' arguments' (length arguments') bs"
    using converts_transfer [OF bs assms(1,2)] assms(1) by simp
  obtain c where c: "snd (size_pass env arguments 0 0) = Inr c"
    and s: "s = copied (allocate env (length arguments) c) 0 bs"
    and ok: "arguments = [] \<or> (calloc env (to_size_t c) \<noteq> 0 \<and> bytes_needed bs \<le> to_size_t c)"
    using assms(5) bs by (rule marshal_Inr)
  obtain c' where c': "snd (size_pass env' arguments' 0 0) = Inr c'"
    and s': "s' = copied (allocate env' (length arguments') c') 0 bs"
    and ok': "arguments' = [] \<or> (calloc env' (to_size_t c') \<noteq> 0 \<and> bytes_needed bs \<le> to_size_t c')"
    using assms(6) bs' by (rule marshal_Inr)
  obtain bs1 where bs1: "converts env arguments 0 bs1"
    using c by (rule size_pass_Inr)
  have "converts env' arguments' 0 bs1"
    using bs1 assms(1,2) by (rule converts_transfer)
  then have "c' = of_nat (bytes_needed bs1)"
    using c' by (simp add: size_pass_sized)
  moreover have "c = of_nat (bytes_needed bs1)"
    using c by (simp add: size_pass_sized [OF bs1])
  ultimately have cc: "c' = c" by simp
  have len: "length bs = length arguments" using bs by (simp add: converts_def)
  have h: "heap s' = heap s"
  proof (cases "arguments = []")
    case True
    then have "bs = []" "bs1 = []" "arguments' = []"
      using len bs1 assms(1) by (simp_all add: converts_def)
    then show ?thesis using True by (simp add: s s' \<open>c = of_nat (bytes_needed bs1)\<close> cc)
  next
    case False
    then have "arguments' \<noteq> []" using assms(1) by auto
    then show ?thesis
      using False ok ok' by (simp add: s s' cc heap_marshalled)
  qed
  have a: "argv s = offsets (args_buffer s) bs" "argv s' = offsets (args_buffer s') bs"
    by (simp_all add: s s')
  have v: "map (\<lambda>p. p - args_buffer s') (argv s') = map (\<lambda>p. p - args_buffer s) (argv s)"
    by (simp only: a offsets_shift)
  have "bs = [] \<or> (args_buffer s \<noteq> 0 \<and> args_buffer s' \<noteq> 0)"
    using ok ok' len assms(1) by (auto simp: s s')
  then have "map (c_str (args_buffer s') (heap s)) (argv s') =
             map (c_str (args_buffer s) (heap s)) (argv s)"
    unfolding a by (rule c_str_offsets)
  then have "node_Start env' (length arguments') (argv s') (args_buffer s') (heap s') =
             node_Start env (length arguments) (argv s) (args_buffer s) (heap s)"
    using assms(1,3,4) by (simp add: h)
  then have
    "snd (startNodeWithArguments env' arguments') = snd (startNodeWithArguments env arguments)"
    by (simp add: start_returns [OF assms(5)] start_returns [OF assms(6)])
  then show ?thesis using h v by simp
qed

section \<open>The claims\<close>

text \<open>
  C1 (round trip), amended. Let both passes convert the arguments to the same well-formed
  strings (no zero byte inside), let the bytes the strings need, each length plus one,
  stay below \<open>2 ^ 31\<close>, the range of the \<^verbatim>\<open>int\<close> accumulator, and let \<^verbatim>\<open>calloc\<close>
  return a block. Then the copy pass completes, and for every index \<open>i\<close> below the count
  the null-terminated string read at \<open>argv[i]\<close> is exactly the byte sequence of the
  \<open>i\<close>-th argument, in the original order.
\<close>

theorem round_trip:
  assumes "converts env arguments 0 bs"
    and "converts env arguments (length arguments) bs"
    and "\<forall>b\<in>set bs. 0 \<notin> set b"
    and "bytes_needed bs < 2 ^ 31"
    and "calloc env (bytes_needed bs) \<noteq> 0"
    and "i < length arguments"
  shows "\<exists>s. snd (marshal env arguments) = Inr s \<and>
             c_str (args_buffer s) (heap s) (argv s ! i) = Some (bs ! i)"
proof -
  obtain s where s: "snd (marshal env arguments) = Inr s"
    using marshal_reached [OF assms(1,2,4,5)] by blast
  have "c_str (args_buffer s) (heap s) (argv s ! i) = Some (bs ! i)"
    using s assms(2,3,6) by (rule c_str_reached)
  then show ?thesis using s by blast
qed

theorem round_trip_witness:
  "converts example_env example_arguments 0 example_arguments \<and>
   converts example_env example_arguments (length example_arguments) example_arguments \<and>
   bytes_needed example_arguments = 15 \<and>
   calloc example_env (bytes_needed example_arguments) = 4096 \<and>
   snd (marshal example_env example_arguments) = Inr example_locals \<and>
   c_str (args_buffer example_locals) (heap example_locals) (argv example_locals ! 1) =
     Some (example_arguments ! 1)"
proof -
  have r: "bytes_needed example_arguments < 2 ^ 31" by (simp add: bytes_needed_example)
  have a: "calloc example_env (bytes_needed example_arguments) = 4096"
    by (simp add: example_env_def)
  then have a': "calloc example_env (bytes_needed example_arguments) \<noteq> 0" by simp
  have i: "1 < length example_arguments" by (simp add: example_arguments_def)
  have m: "snd (marshal example_env example_arguments) = Inr example_locals"
    by (simp add: marshal_example)
  from round_trip [OF converts_example converts_example well_formed_example r a' i] m
  have "c_str (args_buffer example_locals) (heap example_locals) (argv example_locals ! 1) =
     Some (example_arguments ! 1)"
    by auto
  then show ?thesis
    using m a converts_example [of 0] converts_example [of "length example_arguments"]
      bytes_needed_example
    by blast
qed

text \<open>
  C1 as stated, for every sequence of well-formed strings, fails: there are runs in which
  the copy pass does not complete, so that nothing is left to read at \<open>argv[i]\<close>. With
  \<open>long_argument\<close> before two short arguments the \<^verbatim>\<open>int\<close> size wraps to 4 and the first
  \<^verbatim>\<open>memcpy\<close> leaves the block; with one short argument and a null result of \<^verbatim>\<open>calloc\<close>
  the first \<^verbatim>\<open>memcpy\<close> has no block to write to; and when the conversion of the copy
  pass returns the null pointer, after that of the size pass has succeeded, the run ends
  in \<^verbatim>\<open>strlen\<close>.
\<close>

theorem round_trip_no_state:
  "0 \<notin> set long_argument \<and> 0 \<notin> set [110 :: byte] \<and> 0 \<notin> set [111 :: byte] \<and>
   converts example_env [long_argument, [110], [111]] 0 [long_argument, [110], [111]] \<and>
   converts example_env [long_argument, [110], [111]] 3 [long_argument, [110], [111]] \<and>
   marshal example_env [long_argument, [110], [111]] =
     ([Measured 0, Measured 1, Measured 2, Allocated 4], Inl OutOfBounds) \<and>
   converts exhausted_env [[110]] 0 [[110]] \<and>
   converts exhausted_env [[110]] 1 [[110]] \<and>
   calloc exhausted_env 2 = 0 \<and>
   marshal exhausted_env [[110]] = ([Measured 0, Allocated 2], Inl OutOfBounds) \<and>
   converts (failing_env 1) [[110]] 0 [[110]] \<and>
   GetStringUTFChars (failing_env 1) 1 [110] = None \<and>
   calloc (failing_env 1) 2 = 4096 \<and>
   marshal (failing_env 1) [[110]] = ([Measured 0, Allocated 2], Inl NullPointerRead)"
proof -
  have "strlen [110] = 1" "strlen [111] = 1" by (simp_all add: strlen_def)
  then show ?thesis
    by (simp add: converts_def marshal_def allocate_def example_env_def size_pass.simps
        copy_pass.simps strlen_long_argument long_argument_well_formed memcpy_def store_def
        in_block_def to_size_t_def nth_Cons')
qed




text \<open>
  C3 (slot layout), amended. Let both passes convert the arguments to the same strings,
  let the bytes the strings need stay below \<open>2 ^ 31\<close>, and let \<^verbatim>\<open>calloc\<close> return a block.
  Then the copy pass completes, and for every index \<open>i\<close> below the count: the slot of
  \<open>i\<close>, from \<open>argv[i]\<close> to \<open>argv[i] + length_i\<close>, lies in the block and ends with a
  zero byte; \<open>argv[i]\<close> is the block's start plus the sizes of the slots before it, and
  the bytes found there are those of the \<open>i\<close>-th string; and the slot of every other
  index \<open>j\<close> is disjoint from the slot of \<open>i\<close>.
\<close>

theorem slot_layout:
  assumes "converts env arguments 0 bs"
    and "converts env arguments (length arguments) bs"
    and "bytes_needed bs < 2 ^ 31"
    and "calloc env (bytes_needed bs) \<noteq> 0"
    and "i < length arguments"
  shows "\<exists>s. snd (marshal env arguments) = Inr s \<and>
             in_block s (argv s ! i) (strlen (bs ! i) + 1) \<and>
             heap s ! (argv s ! i - args_buffer s + strlen (bs ! i)) = 0 \<and>
             argv s ! i = args_buffer s + bytes_needed (take i bs) \<and>
             take (strlen (bs ! i)) (drop (argv s ! i - args_buffer s) (heap s)) =
               take (strlen (bs ! i)) (bs ! i) \<and>
             (\<forall>j<length arguments. j \<noteq> i \<longrightarrow>
                {argv s ! i .. argv s ! i + strlen (bs ! i)} \<inter>
                  {argv s ! j .. argv s ! j + strlen (bs ! j)} = {})"
proof -
  obtain s where s: "snd (marshal env arguments) = Inr s"
    using marshal_reached [OF assms(1-4)] by blast
  have slot: "in_block s (argv s ! i) (strlen (bs ! i) + 1) \<and>
         heap s ! (argv s ! i - args_buffer s + strlen (bs ! i)) = 0 \<and>
         argv s ! i = args_buffer s + bytes_needed (take i bs) \<and>
         take (strlen (bs ! i)) (drop (argv s ! i - args_buffer s) (heap s)) =
           take (strlen (bs ! i)) (bs ! i)"
    using s assms(2,5) by (rule slot_reached)
  have "{argv s ! i .. argv s ! i + strlen (bs ! i)} \<inter>
          {argv s ! j .. argv s ! j + strlen (bs ! j)} = {}"
    if "j < length arguments" "j \<noteq> i" for j
    using slots_disjoint_reached [OF s assms(2,5) that(1)] that(2) by blast
  then show ?thesis using s slot by blast
qed

theorem slot_layout_witness:
  "converts example_env example_arguments 0 example_arguments \<and>
   converts example_env example_arguments (length example_arguments) example_arguments \<and>
   bytes_needed example_arguments = 15 \<and>
   calloc example_env (bytes_needed example_arguments) = 4096 \<and>
   snd (marshal example_env example_arguments) = Inr example_locals \<and>
   in_block example_locals (argv example_locals ! 0) (strlen (example_arguments ! 0) + 1) \<and>
   heap example_locals !
     (argv example_locals ! 0 - args_buffer example_locals + strlen (example_arguments ! 0)) = 0 \<and>
   argv example_locals ! 0 = args_buffer example_locals + bytes_needed (take 0 example_arguments) \<and>
   take (strlen (example_arguments ! 0))
     (drop (argv example_locals ! 0 - args_buffer example_locals) (heap example_locals)) =
     take (strlen (example_arguments ! 0)) (example_arguments ! 0) \<and>
   {argv example_locals ! 0 .. argv example_locals ! 0 + strlen (example_arguments ! 0)} \<inter>
     {argv example_locals ! 1 .. argv example_locals ! 1 + strlen (example_arguments ! 1)} = {} \<and>
   converts example_env [[110]] 0 [[110]] \<and>
   converts example_env [[110]] (length [[110 :: byte]]) [[110]] \<and>
   bytes_needed [[110]] = 2 \<and>
   snd (marshal example_env [[110]]) = Inr single_locals \<and>
   in_block single_locals (argv single_locals ! 0) (strlen ([[110]] ! 0) + 1) \<and>
   heap single_locals !
     (argv single_locals ! 0 - args_buffer single_locals + strlen ([[110]] ! 0)) = 0 \<and>
   argv single_locals ! 0 = args_buffer single_locals + bytes_needed (take 0 [[110]]) \<and>
   take (strlen ([[110]] ! 0))
     (drop (argv single_locals ! 0 - args_buffer single_locals) (heap single_locals)) =
     take (strlen ([[110]] ! 0)) ([[110]] ! 0)"
proof -
  have r: "bytes_needed example_arguments < 2 ^ 31" by (simp add: bytes_needed_example)
  have a: "calloc example_env (bytes_needed example_arguments) = 4096"
    by (simp add: example_env_def)
  then have a': "calloc example_env (bytes_needed example_arguments) \<noteq> 0" by simp
  have i: "0 < length example_arguments" and j: "1 < length example_arguments"
    by (simp_all add: example_arguments_def)
  have m: "snd (marshal example_env example_arguments) = Inr example_locals"
    by (simp add: marshal_example)
  from slot_layout [OF converts_example converts_example r a' i] m j
  have two: "in_block example_locals (argv example_locals ! 0) (strlen (example_arguments ! 0) + 1) \<and>
   heap example_locals !
     (argv example_locals ! 0 - args_buffer example_locals + strlen (example_arguments ! 0)) = 0 \<and>
   argv example_locals ! 0 = args_buffer example_locals + bytes_needed (take 0 example_arguments) \<and>
   take (strlen (example_arguments ! 0))
     (drop (argv example_locals ! 0 - args_buffer example_locals) (heap example_locals)) =
     take (strlen (example_arguments ! 0)) (example_arguments ! 0) \<and>
   {argv example_locals ! 0 .. argv example_locals ! 0 + strlen (example_arguments ! 0)} \<inter>
     {argv example_locals ! 1 .. argv example_locals ! 1 + strlen (example_arguments ! 1)} = {}"
    by auto
  have c1: "converts example_env [[110]] n [[110]]" for n
    by (simp add: converts_def example_env_def)
  have b1: "bytes_needed [[110]] = 2" by (simp add: strlen_def)
  then have r1: "bytes_needed [[110]] < 2 ^ 31" by simp
  have a1: "calloc example_env (bytes_needed [[110]]) \<noteq> 0" by (simp add: example_env_def)
  have i1: "0 < length [[110 :: byte]]" by simp
  from slot_layout [OF c1 c1 r1 a1 i1] marshal_single
  have one: "in_block single_locals (argv single_locals ! 0) (strlen ([[110]] ! 0) + 1) \<and>
   heap single_locals !
     (argv single_locals ! 0 - args_buffer single_locals + strlen ([[110]] ! 0)) = 0 \<and>
   argv single_locals ! 0 = args_buffer single_locals + bytes_needed (take 0 [[110]]) \<and>
   take (strlen ([[110]] ! 0))
     (drop (argv single_locals ! 0 - args_buffer single_locals) (heap single_locals)) =
     take (strlen ([[110]] ! 0)) ([[110]] ! 0)"
    by auto
  show ?thesis
    using two one m a b1 marshal_single converts_example [of 0]
      converts_example [of "length example_arguments"] c1 [of 0] c1 [of "length [[110 :: byte]]"]
      bytes_needed_example
    by blast
qed

text \<open>
  C3 as stated, for every run, fails: there are runs in which the copy pass does not
  complete and no slot is laid out. With two copies of \<open>long_argument\<close> the \<^verbatim>\<open>int\<close> size
  wraps to 0 and the first \<^verbatim>\<open>memcpy\<close> leaves the block; with two short arguments and a
  null result of \<^verbatim>\<open>calloc\<close> the first \<^verbatim>\<open>memcpy\<close> has no block to write to; and when the
  first conversion of the copy pass returns the null pointer, after those of the size pass
  have succeeded, the run ends in \<^verbatim>\<open>strlen\<close>.
\<close>

theorem slot_layout_no_state:
  "0 \<notin> set long_argument \<and>
   converts example_env [long_argument, long_argument] 0 [long_argument, long_argument] \<and>
   converts example_env [long_argument, long_argument] 2 [long_argument, long_argument] \<and>
   marshal example_env [long_argument, long_argument] =
     ([Measured 0, Measured 1, Allocated 0], Inl OutOfBounds) \<and>
   converts exhausted_env [[110], [111]] 0 [[110], [111]] \<and>
   converts exhausted_env [[110], [111]] 2 [[110], [111]] \<and>
   calloc exhausted_env 4 = 0 \<and>
   marshal exhausted_env [[110], [111]] = ([Measured 0, Measured 1, Allocated 4], Inl OutOfBounds) \<and>
   converts (failing_env 2) [[110], [111]] 0 [[110], [111]] \<and>
   GetStringUTFChars (failing_env 2) 2 [110] = None \<and>
   calloc (failing_env 2) 4 = 4096 \<and>
   marshal (failing_env 2) [[110], [111]] =
     ([Measured 0, Measured 1, Allocated 4], Inl NullPointerRead)"
proof -
  have "strlen [110] = 1" "strlen [111] = 1" by (simp_all add: strlen_def)
  then show ?thesis
    by (simp add: converts_def marshal_def allocate_def example_env_def size_pass.simps
        copy_pass.simps strlen_long_argument long_argument_well_formed memcpy_def store_def
        in_block_def to_size_t_def nth_Cons')
qed

text \<open>
  C4 (allocation failure), amended. The function checks neither the result of
  \<^verbatim>\<open>calloc\<close> nor the range of the size, and its outcome is either the value of
  \<^verbatim>\<open>node::Start\<close> or a fault: it has no allocation error to report. Let both passes
  convert the arguments to the same strings and let there be at least one argument. When
  \<^verbatim>\<open>calloc\<close> returns the null pointer, or the size has wrapped so that fewer bytes are
  requested than the strings need, the run ends inside the copy pass, after the size
  pass and the allocation, at the first write that falls outside the block; when
  \<^verbatim>\<open>calloc\<close> returns the null pointer that is the first write of all. The block is not
  released and \<^verbatim>\<open>node::Start\<close> is not invoked.
\<close>

theorem allocation_failure_faults:
  assumes "converts env arguments 0 bs"
    and "converts env arguments (length arguments) bs"
    and "arguments \<noteq> []"
    and "calloc env (to_size_t (of_nat (bytes_needed bs))) = 0 \<or>
         to_size_t (of_nat (bytes_needed bs)) < bytes_needed bs"
  shows "snd (startNodeWithArguments env arguments) = Inl OutOfBounds \<and>
         (\<exists>n<length arguments. fst (startNodeWithArguments env arguments) =
            map Measured [0..<length arguments] @
            Allocated (to_size_t (of_nat (bytes_needed bs))) # map Copied [0..<n]) \<and>
         (calloc env (to_size_t (of_nat (bytes_needed bs))) = 0 \<longrightarrow>
            fst (startNodeWithArguments env arguments) =
              map Measured [0..<length arguments] @
              [Allocated (to_size_t (of_nat (bytes_needed bs)))]) \<and>
         Released \<notin> set (fst (startNodeWithArguments env arguments)) \<and>
         (\<forall>n. Invoked n \<notin> set (fst (startNodeWithArguments env arguments)))"
proof -
  let ?s0 = "allocate env (length arguments) (of_nat (bytes_needed bs))"
  have f: "snd (marshal env arguments) = Inl OutOfBounds"
    using assms by (rule marshal_overrun)
  have m: "marshal env arguments =
      (map Measured [0..<length arguments] @
         Allocated (to_size_t (of_nat (bytes_needed bs))) # fst (copy_pass env arguments 0 ?s0),
       snd (copy_pass env arguments 0 ?s0))"
    using assms(1) by (rule marshal_sized)
  have "snd (copy_pass env arguments 0 ?s0) = Inl OutOfBounds"
    using f by (simp add: m)
  then obtain n where n: "n < length arguments"
      "fst (copy_pass env arguments 0 ?s0) = map Copied [0..<n]"
    using copy_pass_fault_inside [of env arguments 0 ?s0 OutOfBounds] by blast
  have t: "\<exists>n<length arguments. fst (marshal env arguments) =
      map Measured [0..<length arguments] @
      Allocated (to_size_t (of_nat (bytes_needed bs))) # map Copied [0..<n]"
    using n by (intro exI [of _ n]) (simp add: m)
  have z: "fst (marshal env arguments) =
      map Measured [0..<length arguments] @ [Allocated (to_size_t (of_nat (bytes_needed bs)))]"
    if "calloc env (to_size_t (of_nat (bytes_needed bs))) = 0"
  proof -
    have "args_buffer ?s0 = 0" using that by simp
    then have "fst (copy_pass env arguments 0 ?s0) = []"
      using assms(3) copy_pass_null_buffer [of ?s0 arguments env] by blast
    then show ?thesis by (simp add: m)
  qed
  show ?thesis
    using marshal_never_invokes [of env arguments] t z
    by (simp add: start_faults [OF f])
qed

theorem allocation_failure_faults_witness:
  "converts exhausted_env example_arguments 0 example_arguments \<and>
   converts exhausted_env example_arguments (length example_arguments) example_arguments \<and>
   length example_arguments = 2 \<and>
   calloc exhausted_env (to_size_t (of_nat (bytes_needed example_arguments))) = 0 \<and>
   snd (startNodeWithArguments exhausted_env example_arguments) = Inl OutOfBounds \<and>
   fst (startNodeWithArguments exhausted_env example_arguments) =
     map Measured [0..<length example_arguments] @
     [Allocated (to_size_t (of_nat (bytes_needed example_arguments)))] \<and>
   Released \<notin> set (fst (startNodeWithArguments exhausted_env example_arguments)) \<and>
   Invoked 2 \<notin> set (fst (startNodeWithArguments exhausted_env example_arguments))"
proof -
  have c: "converts exhausted_env example_arguments n example_arguments" for n
    by (simp add: converts_def example_env_def)
  have z: "calloc exhausted_env (to_size_t (of_nat (bytes_needed example_arguments))) = 0"
    by simp
  then have d: "calloc exhausted_env (to_size_t (of_nat (bytes_needed example_arguments))) = 0 \<or>
      to_size_t (of_nat (bytes_needed example_arguments)) < bytes_needed example_arguments"
    by blast
  have n: "example_arguments \<noteq> []" by (simp add: example_arguments_def)
  have l: "length example_arguments = 2" by (simp add: example_arguments_def)
  from allocation_failure_faults [OF c c n d] show ?thesis
    using c [of 0] c [of "length example_arguments"] z l by blast
qed

text \<open>
  C4 as stated fails. With one argument and a null result of \<^verbatim>\<open>calloc\<close> the run is
  not stopped before the copy pass with an error: it enters the copy pass and ends there
  in a write outside the block. With a one-byte argument before \<open>long_argument\<close> the
  strings need \<open>2 ^ 32 + 2\<close> bytes, the \<^verbatim>\<open>int\<close> size wraps to 2, the overflow is not
  detected, and the first argument is copied before the second leaves the block. With no
  argument a null result of \<^verbatim>\<open>calloc\<close> stops nothing, and \<^verbatim>\<open>node::Start\<close> is invoked
  with count 0.
\<close>

theorem allocation_failure_not_reported:
  "converts exhausted_env [[110]] 0 [[110]] \<and>
   converts exhausted_env [[110]] 1 [[110]] \<and>
   calloc exhausted_env 2 = 0 \<and>
   startNodeWithArguments exhausted_env [[110]] = ([Measured 0, Allocated 2], Inl OutOfBounds) \<and>
   0 \<notin> set long_argument \<and>
   converts example_env [[45], long_argument] 0 [[45], long_argument] \<and>
   converts example_env [[45], long_argument] 2 [[45], long_argument] \<and>
   bytes_needed [[45], long_argument] = 4294967298 \<and>
   startNodeWithArguments example_env [[45], long_argument] =
     ([Measured 0, Measured 1, Allocated 2, Copied 0], Inl OutOfBounds) \<and>
   startNodeWithArguments exhausted_env [] = ([Allocated 0, Invoked 0, Released], Inr 0)"
proof -
  have s: "strlen [110] = 1" "strlen [45] = 1" by (simp_all add: strlen_def)
  have r: "replicate 2 (0 :: byte) = [0, 0]" by (simp add: numeral_2_eq_2)
  show ?thesis
    by (simp add: converts_def start_def marshal_def allocate_def example_env_def
        example_run_def size_pass.simps copy_pass.simps s r strlen_long_argument
        long_argument_well_formed memcpy_def store_def in_block_def to_size_t_def nth_Cons')
qed

text \<open>
  C5 (conversion failure), amended. The function does not check what
  \<^verbatim>\<open>GetStringUTFChars\<close> returns and has no conversion error to report. When a conversion
  of the size pass returns the null pointer, the run ends there in the fault of
  \<^verbatim>\<open>strlen\<close> on a null pointer; its events are measurements only, so nothing is allocated
  and \<^verbatim>\<open>node::Start\<close> is not invoked.
\<close>

theorem null_conversion_faults:
  assumes "k < length arguments" and "GetStringUTFChars env k (arguments ! k) = None"
  shows "snd (startNodeWithArguments env arguments) = Inl NullPointerRead \<and>
         (\<exists>n. fst (startNodeWithArguments env arguments) = map Measured [0..<n])"
proof -
  have "snd (size_pass env arguments 0 0) = Inl NullPointerRead"
    using assms by (intro size_pass_null [of 0 k]) simp_all
  moreover obtain n where "fst (size_pass env arguments 0 0) = map Measured [0..<n]"
    using size_pass_trace [of env arguments 0 0] by blast
  ultimately have "size_pass env arguments 0 0 = (map Measured [0..<n], Inl NullPointerRead)"
    by (simp add: prod_eq_iff)
  then show ?thesis
    by (auto simp: start_def marshal_def)
qed

theorem null_conversion_faults_witness:
  "0 < length example_arguments \<and>
   GetStringUTFChars (failing_env 0) 0 (example_arguments ! 0) = None \<and>
   startNodeWithArguments (failing_env 0) example_arguments =
     ([], Inl NullPointerRead)"
proof -
  have k: "0 < length example_arguments" by (simp add: example_arguments_def)
  have g: "GetStringUTFChars (failing_env 0) 0 (example_arguments ! 0) = None" by simp
  have "fst (startNodeWithArguments (failing_env 0) example_arguments) = []"
    using k by (simp add: start_def marshal_def size_pass.simps [of _ _ 0])
  then show ?thesis
    using null_conversion_faults [OF k g] k g by (simp add: prod_eq_iff)
qed

text \<open>
  C5 as stated fails: the outcome of a failed conversion is the fault, not an error
  returned to the caller, and a conversion that fails in the copy pass (the call can fail
  each time it is made) does so after the allocation.
\<close>

theorem conversion_fails_after_allocation:
  "startNodeWithArguments (failing_env 0) [[110]] = ([], Inl NullPointerRead) \<and>
   GetStringUTFChars (failing_env 1) 1 [110] = None \<and>
   startNodeWithArguments (failing_env 1) [[110]] =
     ([Measured 0, Allocated 2], Inl NullPointerRead)"
  by (simp add: start_def marshal_def allocate_def example_env_def size_pass.simps
      copy_pass.simps strlen_def to_size_t_def)

text \<open>
  C6 (result passed through). Whenever a run invokes \<^verbatim>\<open>node::Start\<close>, the count is the
  number of arguments and the function returns exactly the integer \<^verbatim>\<open>node::Start\<close>
  returned for the marshalled vector, whatever that integer is.
\<close>

theorem result_passed_through:
  assumes "Invoked n \<in> set (fst (startNodeWithArguments env arguments))"
  shows "\<exists>s. snd (marshal env arguments) = Inr s \<and> n = length arguments \<and>
             snd (startNodeWithArguments env arguments) =
               Inr (node_Start env n (argv s) (args_buffer s) (heap s))"
proof (cases "snd (marshal env arguments)")
  case (Inl f)
  have "\<forall>e\<in>set (fst (marshal env arguments)). phase e < 3"
    using marshal_phases [of env arguments] by blast
  then have "Invoked n \<notin> set (fst (marshal env arguments))" by fastforce
  then show ?thesis using assms by (simp add: start_faults [OF Inl])
next
  case (Inr s)
  have "\<forall>e\<in>set (fst (marshal env arguments)). phase e < 3"
    using marshal_phases [of env arguments] by blast
  then have "Invoked n \<notin> set (fst (marshal env arguments))" by fastforce
  then have "n = length arguments" using assms by (simp add: start_returns [OF Inr])
  then show ?thesis using Inr by (simp add: start_returns [OF Inr])
qed

theorem result_passed_through_witness:
  "Invoked 2 \<in> set (fst (startNodeWithArguments example_env example_arguments)) \<and>
   snd (marshal example_env example_arguments) = Inr example_locals \<and>
   snd (startNodeWithArguments example_env example_arguments) =
     Inr (node_Start example_env 2 (argv example_locals) (args_buffer example_locals)
            (heap example_locals)) \<and>
   snd (startNodeWithArguments example_env example_arguments) = Inr 15"
proof -
  have i: "Invoked 2 \<in> set (fst (startNodeWithArguments example_env example_arguments))"
    by (simp add: start_example)
  from result_passed_through [OF i] show ?thesis
    using i by (auto simp: marshal_example start_example)
qed

text \<open>
  C7 (cursor), amended. When every argument converts to the same bytes in both passes, the
  bytes needed stay below \<open>2 ^ 31\<close> and \<^verbatim>\<open>calloc\<close> returns a block, the run reaches the
  call of \<^verbatim>\<open>node::Start\<close>: the cursor of iteration \<open>i\<close> is the block's start plus the
  lengths plus one of the arguments before, every slot written lies in the block, and the
  final cursor is the block's start plus the block's size.
\<close>

theorem cursor_no_drift:
  assumes "converts env arguments 0 bs"
    and "converts env arguments (length arguments) bs"
    and "bytes_needed bs < 2 ^ 31"
    and "calloc env (bytes_needed bs) \<noteq> 0"
  shows "\<exists>s. snd (marshal env arguments) = Inr s \<and>
             args_buffer s = calloc env (bytes_needed bs) \<and>
             length (heap s) = bytes_needed bs \<and>
             current s = args_buffer s + bytes_needed bs \<and>
             (\<forall>i<length arguments.
                argv s ! i = args_buffer s + bytes_needed (take i bs) \<and>
                in_block s (argv s ! i) (strlen (bs ! i) + 1))"
proof -
  let ?c = "of_nat (bytes_needed bs) :: jint"
  let ?s = "copied (allocate env (length arguments) ?c) 0 bs"
  have req: "to_size_t ?c = bytes_needed bs"
    using assms(3) by (rule to_size_t_of_nat)
  have len: "length bs = length arguments" using assms(1) by (simp add: converts_def)
  have "marshal env arguments =
          (map Measured [0..<length arguments] @ Allocated (to_size_t ?c) #
             map Copied [0..<length arguments], Inr ?s)"
    using assms(4) by (intro marshal_copied [OF assms(1,2)]) (simp add: req)
  then have m: "snd (marshal env arguments) = Inr ?s" by simp
  have h: "heap ?s = packed bs"
    using assms(4) by (simp add: heap_marshalled req)
  have slot: "argv ?s ! i = args_buffer ?s + bytes_needed (take i bs) \<and>
        in_block ?s (argv ?s ! i) (strlen (bs ! i) + 1)" if "i < length arguments" for i
  proof -
    have i: "i < length bs" using that len by simp
    have "bytes_needed (take (Suc i) bs) \<le> bytes_needed bs"
      by (rule bytes_needed_take_le)
    then show ?thesis
      using assms(4) i by (simp add: in_block_def h req offsets_nth bytes_needed_take_Suc)
  qed
  show ?thesis
  proof (intro exI [of _ ?s] conjI)
    show "snd (marshal env arguments) = Inr ?s" by (rule m)
    show "args_buffer ?s = calloc env (bytes_needed bs)" by (simp add: req)
    show "length (heap ?s) = bytes_needed bs" by (simp only: h length_packed)
    show "current ?s = args_buffer ?s + bytes_needed bs" by (simp add: req)
    show "\<forall>i<length arguments.
            argv ?s ! i = args_buffer ?s + bytes_needed (take i bs) \<and>
            in_block ?s (argv ?s ! i) (strlen (bs ! i) + 1)"
      using slot by blast
  qed
qed

theorem cursor_no_drift_witness:
  "converts example_env example_arguments 0 example_arguments \<and>
   converts example_env example_arguments (length example_arguments) example_arguments \<and>
   bytes_needed example_arguments = 15 \<and>
   calloc example_env (bytes_needed example_arguments) = 4096 \<and>
   (\<exists>s. snd (marshal example_env example_arguments) = Inr s \<and>
        args_buffer s = calloc example_env (bytes_needed example_arguments) \<and>
        length (heap s) = bytes_needed example_arguments \<and>
        current s = args_buffer s + bytes_needed example_arguments \<and>
        (\<forall>i<length example_arguments.
           argv s ! i = args_buffer s + bytes_needed (take i example_arguments) \<and>
           in_block s (argv s ! i) (strlen (example_arguments ! i) + 1)))"
proof -
  have r: "bytes_needed example_arguments < 2 ^ 31" by (simp add: bytes_needed_example)
  have a: "calloc example_env (bytes_needed example_arguments) = 4096"
    by (simp add: example_env_def)
  then have a': "calloc example_env (bytes_needed example_arguments) \<noteq> 0" by simp
  from cursor_no_drift [OF converts_example converts_example r a'] show ?thesis
    using a converts_example [of 0] converts_example [of "length example_arguments"]
      bytes_needed_example
    by blast
qed

text \<open>
  C7 as stated, with the equal conversions as its only precondition, fails: for
  \<open>long_argument\<close> followed by a one-byte argument the computed size is 2,
  \<^verbatim>\<open>calloc\<close> returns a block of two bytes, and the first \<^verbatim>\<open>memcpy\<close> writes beyond it.
\<close>

theorem cursor_overruns:
  "0 \<notin> set long_argument \<and>
   converts example_env [long_argument, [110]] 0 [long_argument, [110]] \<and>
   converts example_env [long_argument, [110]] 2 [long_argument, [110]] \<and>
   calloc example_env 2 = 4096 \<and>
   marshal example_env [long_argument, [110]] =
     ([Measured 0, Measured 1, Allocated 2], Inl OutOfBounds)"
proof -
  have "strlen [110] = 1" by (simp add: strlen_def)
  then show ?thesis
    by (simp add: converts_def marshal_def allocate_def example_env_def size_pass.simps
        copy_pass.simps strlen_long_argument long_argument_well_formed memcpy_def store_def
        in_block_def to_size_t_def nth_Cons')
qed

text \<open>
  C8 (empty input). With no argument the computed size is 0, \<^verbatim>\<open>calloc\<close> is asked for 0
  bytes, \<^verbatim>\<open>argv\<close> is empty, and \<^verbatim>\<open>node::Start\<close> is invoked with count 0; its result is
  returned.
\<close>

theorem empty_input:
  "marshal env [] =
     ([Allocated 0],
      Inr \<lparr>c_arguments_size = 0, args_buffer = calloc env 0, argv = [],
           current = calloc env 0, heap = []\<rparr>) \<and>
   startNodeWithArguments env [] =
     ([Allocated 0, Invoked 0, Released], Inr (node_Start env 0 [] (calloc env 0) []))"
  by (simp add: start_def marshal_def allocate_def size_pass.simps copy_pass.simps)

theorem empty_input_witness:
  "startNodeWithArguments example_env [] = ([Allocated 0, Invoked 0, Released], Inr 0)"
  using empty_input [of example_env] by (simp add: example_env_def example_run_def)

text \<open>
  C9 (phase order and release), amended. In every run, also one that ends in a fault, the
  events are ordered by phase: measurements, then the allocation, then the copies, then
  the invocation, then the release, and no event occurs twice. A run that returns has
  measured and copied every argument, has invoked \<^verbatim>\<open>node::Start\<close> once and has released
  the block once, right after the invocation, whatever integer was returned. A run that
  ends in a fault has neither invoked \<^verbatim>\<open>node::Start\<close> nor released anything.
\<close>

theorem phases_and_release:
  "sorted (map phase (fst (startNodeWithArguments env arguments))) \<and>
   distinct (fst (startNodeWithArguments env arguments)) \<and>
   (\<forall>v. snd (startNodeWithArguments env arguments) = Inr v \<longrightarrow>
      (\<exists>c. fst (startNodeWithArguments env arguments) =
         map Measured [0..<length arguments] @ Allocated (to_size_t c) #
         map Copied [0..<length arguments] @ [Invoked (length arguments), Released])) \<and>
   (\<forall>f. snd (startNodeWithArguments env arguments) = Inl f \<longrightarrow>
      Released \<notin> set (fst (startNodeWithArguments env arguments)) \<and>
      (\<forall>n. Invoked n \<notin> set (fst (startNodeWithArguments env arguments))))"
proof (cases "snd (marshal env arguments)")
  case (Inl f)
  have p: "\<forall>e\<in>set (fst (marshal env arguments)). phase e < 3"
    using marshal_phases [of env arguments] by blast
  have "Released \<notin> set (fst (marshal env arguments))"
    using p by fastforce
  moreover have "Invoked n \<notin> set (fst (marshal env arguments))" for n
    using p by fastforce
  ultimately show ?thesis
    using marshal_phases [of env arguments] by (simp add: start_faults [OF Inl])
next
  case (Inr s)
  have p: "\<forall>e\<in>set (fst (marshal env arguments)). phase e < 3"
    using marshal_phases [of env arguments] by blast
  have r: "Released \<notin> set (fst (marshal env arguments))"
    using p by fastforce
  have i: "Invoked (length arguments) \<notin> set (fst (marshal env arguments))"
    using p by fastforce
  have q: "phase e \<le> 3 \<and> phase e \<le> 4" if "e \<in> set (fst (marshal env arguments))" for e
    using p that by fastforce
  have "sorted (map phase (fst (marshal env arguments)))"
    using marshal_phases [of env arguments] by blast
  then have "sorted (map phase (fst (marshal env arguments)) @ [3, 4])"
    using q by (simp add: sorted_append)
  then have
    "sorted (map phase (fst (marshal env arguments) @ [Invoked (length arguments), Released]))"
    by simp
  moreover have "distinct (fst (marshal env arguments) @ [Invoked (length arguments), Released])"
    using marshal_phases [of env arguments] r i by simp
  moreover obtain c where "fst (marshal env arguments) =
      map Measured [0..<length arguments] @ Allocated (to_size_t c) #
      map Copied [0..<length arguments]"
    using marshal_Inr_trace [OF Inr] by blast
  ultimately show ?thesis
    unfolding start_returns [OF Inr] fst_conv snd_conv by auto
qed

theorem phases_and_release_witness:
  "sorted (map phase (fst (startNodeWithArguments example_env example_arguments))) \<and>
   distinct (fst (startNodeWithArguments example_env example_arguments)) \<and>
   snd (startNodeWithArguments example_env example_arguments) = Inr 15 \<and>
   (\<exists>c. fst (startNodeWithArguments example_env example_arguments) =
      map Measured [0..<length example_arguments] @ Allocated (to_size_t c) #
      map Copied [0..<length example_arguments] @ [Invoked (length example_arguments), Released]) \<and>
   fst (startNodeWithArguments example_env example_arguments) =
     [Measured 0, Measured 1, Allocated 15, Copied 0, Copied 1, Invoked 2, Released]"
proof -
  have s: "snd (startNodeWithArguments example_env example_arguments) = Inr 15"
    by (simp add: start_example)
  have t: "fst (startNodeWithArguments example_env example_arguments) =
      [Measured 0, Measured 1, Allocated 15, Copied 0, Copied 1, Invoked 2, Released]"
    by (simp add: start_example)
  from phases_and_release [of example_env example_arguments] s t show ?thesis
    by blast
qed

text \<open>
  C9 as stated, with the release also on failure paths, fails: when the fourth conversion
  returns the null pointer, the run ends in the second iteration of the copy pass; the
  block is allocated and written, and never released.
\<close>

theorem block_not_released:
  "startNodeWithArguments (failing_env 3)
     [[110], [111]] =
     ([Measured 0, Measured 1, Allocated 4, Copied 0], Inl NullPointerRead)"
  by (simp add: start_def marshal_def allocate_def example_env_def size_pass.simps
      copy_pass.simps strlen_def memcpy_def store_def in_block_def to_size_t_def)

text \<open>
  C10 (determinism), amended. Take two runs in environments whose conversions agree on
  the arguments, whose entry point is one function of the count and the strings read
  through \<open>argv\<close>, and whose allocators, asked for the computed size, both return a
  block or both return the null pointer; the addresses of the blocks may differ. Then
  the two runs have the same events and the same outcome, a fault or the value returned;
  one reaches the call of \<^verbatim>\<open>node::Start\<close> exactly when the other does, and then the blocks
  hold the same bytes and the entries of \<open>argv\<close> are at the same offsets from the
  block's start.
\<close>

theorem marshal_deterministic:
  assumes "length arguments' = length arguments"
    and "\<forall>k. \<forall>i<length arguments.
           GetStringUTFChars env' k (arguments' ! i) = GetStringUTFChars env k (arguments ! i)"
    and "\<forall>argc av base bytes.
           node_Start env argc av base bytes = run argc (map (c_str base bytes) av)"
    and "\<forall>argc av base bytes.
           node_Start env' argc av base bytes = run argc (map (c_str base bytes) av)"
    and "\<forall>c. snd (size_pass env arguments 0 0) = Inr c \<longrightarrow>
           (calloc env' (to_size_t c) = 0) = (calloc env (to_size_t c) = 0)"
  shows "startNodeWithArguments env' arguments' = startNodeWithArguments env arguments \<and>
         ((\<exists>s'. snd (marshal env' arguments') = Inr s') =
          (\<exists>s. snd (marshal env arguments) = Inr s)) \<and>
         (\<forall>s s'. snd (marshal env arguments) = Inr s \<and> snd (marshal env' arguments') = Inr s' \<longrightarrow>
            heap s' = heap s \<and>
            map (\<lambda>p. p - args_buffer s') (argv s') = map (\<lambda>p. p - args_buffer s) (argv s))"
proof -
  have agree: "fst (marshal env' arguments') = fst (marshal env arguments) \<and>
         ((\<exists>f. snd (marshal env' arguments') = Inl f \<and> snd (marshal env arguments) = Inl f) \<or>
          (\<exists>t' t. snd (marshal env' arguments') = Inr t' \<and> snd (marshal env arguments) = Inr t))"
    using assms(1,2,5) by (rule marshal_agree)
  have reached: "heap s' = heap s \<and>
      map (\<lambda>p. p - args_buffer s') (argv s') = map (\<lambda>p. p - args_buffer s) (argv s) \<and>
      snd (startNodeWithArguments env' arguments') = snd (startNodeWithArguments env arguments)"
    if "snd (marshal env arguments) = Inr s" "snd (marshal env' arguments') = Inr s'" for s s'
    using assms(1-4) that by (rule deterministic_reached)
  have same: "startNodeWithArguments env' arguments' = startNodeWithArguments env arguments"
  proof (cases "snd (marshal env arguments)")
    case (Inl f)
    then have "snd (marshal env' arguments') = Inl f" using agree by auto
    then show ?thesis using Inl agree by (simp add: start_faults)
  next
    case (Inr s)
    then obtain s' where s': "snd (marshal env' arguments') = Inr s'" using agree by auto
    have "snd (startNodeWithArguments env' arguments') = snd (startNodeWithArguments env arguments)"
      using reached [OF Inr s'] by blast
    moreover have "fst (startNodeWithArguments env' arguments') = fst (startNodeWithArguments env arguments)"
      using agree assms(1) by (simp add: start_returns [OF Inr] start_returns [OF s'])
    ultimately show ?thesis by (simp add: prod_eq_iff)
  qed
  have both: "(\<exists>s'. snd (marshal env' arguments') = Inr s') =
          (\<exists>s. snd (marshal env arguments) = Inr s)"
    using agree by auto
  show ?thesis using same both reached by blast
qed

theorem marshal_deterministic_witness:
  "snd (marshal example_env example_arguments) = Inr example_locals \<and>
   snd (marshal moved_env example_arguments) = Inr moved_locals \<and>
   calloc example_env 15 = 4096 \<and> calloc moved_env 15 = 8192 \<and>
   startNodeWithArguments moved_env example_arguments = startNodeWithArguments example_env example_arguments \<and>
   heap moved_locals = heap example_locals \<and>
   map (\<lambda>p. p - args_buffer moved_locals) (argv moved_locals) =
     map (\<lambda>p. p - args_buffer example_locals) (argv example_locals)"
proof -
  have g: "\<forall>k. \<forall>i<length example_arguments.
      GetStringUTFChars moved_env k (example_arguments ! i) =
      GetStringUTFChars example_env k (example_arguments ! i)"
    by simp
  have n: "\<forall>argc av base bytes.
      node_Start example_env argc av base bytes = example_run argc (map (c_str base bytes) av)"
    by (simp add: example_env_def)
  have n': "\<forall>argc av base bytes.
      node_Start moved_env argc av base bytes = example_run argc (map (c_str base bytes) av)"
    by (simp add: example_env_def)
  have a: "\<forall>c. snd (size_pass example_env example_arguments 0 0) = Inr c \<longrightarrow>
      (calloc moved_env (to_size_t c) = 0) = (calloc example_env (to_size_t c) = 0)"
    by (simp add: example_env_def)
  have m: "snd (marshal example_env example_arguments) = Inr example_locals"
    by (simp add: marshal_example)
  have c: "calloc example_env 15 = 4096" "calloc moved_env 15 = 8192"
    by (simp_all add: example_env_def)
  from marshal_deterministic [OF refl g n n' a] m marshal_example_moved c
  show ?thesis by blast
qed

text \<open>
  C10 as stated fails: something other than the bytes of the arguments decides the
  result. \<open>example_env\<close> and \<open>exhausted_env\<close> have the same conversions and the same
  entry point, and differ in what \<^verbatim>\<open>calloc\<close> returns; with the same arguments the first
  run returns 15 and the second ends in a fault.
\<close>

theorem allocator_influences:
  "GetStringUTFChars exhausted_env = GetStringUTFChars example_env \<and>
   node_Start exhausted_env = node_Start example_env \<and>
   calloc example_env 15 = 4096 \<and> calloc exhausted_env 15 = 0 \<and>
   snd (startNodeWithArguments example_env example_arguments) = Inr 15 \<and>
   snd (startNodeWithArguments exhausted_env example_arguments) = Inl OutOfBounds"
  by (simp add: start_example start_exhausted_example) (simp add: example_env_def)

end
